theory Spec2Isabelle
  imports Main "HOL-Library.Word" "HOL-Library.Signed_Division" "HOL-Library.Log_Nat"
begin

section \<open>Data model\<close>

text \<open>
  The program \<^verbatim>\<open>src/main.c\<close> shows one image on a Linux framebuffer. Its two structs
  are records. C's \<^verbatim>\<open>int\<close> is modelled by \<^typ>\<open>int\<close>. In the compositor and in \<^verbatim>\<open>main\<close> the
  arithmetic stays within the size of the shadow buffer and of the image drawn, which are
  blocks of fewer than \<open>2\<^sup>3\<^sup>1\<close> bytes. In the resampler it does not: the requested
  dimensions are free, and the products of lines 308, 309, 323 and 324 exceed 32 bits for
  dimensions that \<^verbatim>\<open>main\<close> can ask for (an 8000 x 8000 image at the scale 5.0). Signed
  overflow is undefined in C; the compiled program wraps around, and the model of the
  resampler writes this out with \<open>int32\<close>.
  A \<^verbatim>\<open>uint8_t\<close> is an 8-bit word. A heap block (\<^verbatim>\<open>malloc\<close>, \<^verbatim>\<open>mmap\<close>, the decoder's
  pixel block) is the list of its bytes, so that its length is the size of the block.
  The file descriptor \<^verbatim>\<open>fd\<close> takes no part in drawing and is left out.

  A pointer to the device, to an image or to one of their blocks is modelled by the object
  itself. \<^verbatim>\<open>main\<close> calls the drawing functions only with pointers that it has checked
  (lines 55, 61 and 78), and \<^verbatim>\<open>framebuffer_create\<close> and \<^verbatim>\<open>Image_load\<close> return no
  object with a NULL block, so the NULL guards of lines 209, 215 and 232 are never taken
  and have no branch in the model.
\<close>

type_synonym byte = "8 word"

definition int32 :: "int \<Rightarrow> int" where
  \<comment> \<open>the 32-bit two's complement value that an \<^verbatim>\<open>int\<close> computation leaves\<close>
  "int32 i = (i + 2 ^ 31) mod 2 ^ 32 - 2 ^ 31"

record framebuffer =
  fb_fbp :: "byte list"
  fb_buffer :: "byte list"
  fb_width :: int
  fb_height :: int
  fb_bpp :: int

record Image =
  img_width :: int
  img_height :: int
  img_bpp :: int
  img_stride :: int
  img_data :: "byte list"

subsection \<open>Memory accesses\<close>

text \<open>
  Reading or writing a block outside its bounds is undefined behaviour in C. Every
  access of the model is checked: \<open>None\<close> stands for an access out of bounds.
\<close>

definition load :: "byte list \<Rightarrow> int \<Rightarrow> byte option" where
  "load mem i = (if 0 \<le> i \<and> i < int (length mem) then Some (mem ! nat i) else None)"

definition store :: "byte list \<Rightarrow> int \<Rightarrow> byte \<Rightarrow> byte list option" where
  "store mem i v = (if 0 \<le> i \<and> i < int (length mem) then Some (mem[nat i := v]) else None)"

subsection \<open>Null pointers and allocation\<close>

text \<open>
  A pointer returned by an allocating function is \<open>Null\<close> or points to the new object.
  \<^verbatim>\<open>malloc\<close> is driven from outside: the caller of the model says whether the request
  fails (\<open>None\<close>) or succeeds, and then with which indeterminate content (the function
  gives the byte found at each offset of the fresh block). The size is an \<^verbatim>\<open>int\<close>
  converted to \<^verbatim>\<open>size_t\<close>: a negative \<^verbatim>\<open>int\<close> becomes a size above \<open>2^63\<close>, which
  no allocator grants.
\<close>

datatype 'a ptr = Null | Ptr 'a

definition malloc_bytes :: "(nat \<Rightarrow> byte) option \<Rightarrow> int \<Rightarrow> byte list ptr" where
  "malloc_bytes outcome n =
     (case outcome of
        None \<Rightarrow> Null
      | Some content \<Rightarrow> if n < 0 then Null else Ptr (map content [0 ..< nat n]))"

section \<open>Single-precision floating point\<close>

text \<open>
  A \<^verbatim>\<open>float\<close> is an IEEE 754 binary32 value: a finite value (a rational that has 24
  significant bits and an exponent in range), an infinity or a NaN. Every operation
  computes the exact rational result and rounds it to the nearest binary32 value, ties
  to the even significand, which is how the program's target (x86-64 or ARM with
  \<^verbatim>\<open>FLT_EVAL_METHOD\<close> 0) evaluates \<^verbatim>\<open>float\<close> expressions. The two zeros are one value
  \<open>Fin 0\<close>: the program divides by no negative zero.
\<close>

datatype f32 = Fin rat | PInf | NInf | NaN

definition ilog2 :: "rat \<Rightarrow> int" where
  \<comment> \<open>for \<open>0 < q\<close>, the exponent \<open>e\<close> with \<open>2^e \<le> q < 2^(e+1)\<close>\<close>
  "ilog2 q = (let (n, d) = quotient_of q; k = bitlen n - bitlen d
              in if power_int 2 k \<le> q then k else k - 1)"

definition round_even :: "rat \<Rightarrow> int" where
  "round_even q = (let f = \<lfloor>q\<rfloor>; r = q - of_int f
                   in if r < 1 / 2 then f else if 1 / 2 < r then f + 1
                      else if even f then f else f + 1)"

definition f32_round :: "rat \<Rightarrow> f32" where
  "f32_round q =
     (if q = 0 then Fin 0
      else let e = max (ilog2 \<bar>q\<bar>) (- 126);
               ulp = power_int 2 (e - 23);
               r = of_int (round_even (\<bar>q\<bar> / ulp)) * ulp
           in if power_int 2 128 \<le> r then (if 0 < q then PInf else NInf)
              else Fin (if 0 < q then r else - r))"

definition f32_sign :: "f32 \<Rightarrow> rat" where
  "f32_sign x = (case x of Fin a \<Rightarrow> sgn a | PInf \<Rightarrow> 1 | NInf \<Rightarrow> - 1 | NaN \<Rightarrow> 0)"

definition f32_inf :: "rat \<Rightarrow> f32" where
  \<comment> \<open>the infinity of a sign; no sign (\<open>0 * \<infinity>\<close>, \<open>0 / 0\<close>) gives NaN\<close>
  "f32_inf s = (if s = 0 then NaN else if 0 < s then PInf else NInf)"

definition f32_mul :: "f32 \<Rightarrow> f32 \<Rightarrow> f32" where
  "f32_mul x y =
     (case (x, y) of
        (Fin a, Fin b) \<Rightarrow> f32_round (a * b)
      | _ \<Rightarrow> if x = NaN \<or> y = NaN then NaN else f32_inf (f32_sign x * f32_sign y))"

definition f32_div :: "f32 \<Rightarrow> f32 \<Rightarrow> f32" where
  "f32_div x y =
     (case (x, y) of
        (Fin a, Fin b) \<Rightarrow> if b = 0 then f32_inf (sgn a) else f32_round (a / b)
      | (Fin a, PInf) \<Rightarrow> Fin 0
      | (Fin a, NInf) \<Rightarrow> Fin 0
      | (PInf, Fin b) \<Rightarrow> if 0 \<le> b then PInf else NInf
      | (NInf, Fin b) \<Rightarrow> if 0 \<le> b then NInf else PInf
      | _ \<Rightarrow> NaN)"

fun f32_lt :: "f32 \<Rightarrow> f32 \<Rightarrow> bool" where
  "f32_lt NaN y = False"
| "f32_lt x NaN = False"
| "f32_lt (Fin a) (Fin b) = (a < b)"
| "f32_lt x NInf = False"
| "f32_lt NInf y = True"
| "f32_lt PInf y = False"
| "f32_lt x PInf = True"

definition f32_gt :: "f32 \<Rightarrow> f32 \<Rightarrow> bool" where
  "f32_gt x y = f32_lt y x"

definition f32_eq :: "f32 \<Rightarrow> f32 \<Rightarrow> bool" where
  \<comment> \<open>C's \<^verbatim>\<open>==\<close>: a NaN equals nothing\<close>
  "f32_eq x y = (x \<noteq> NaN \<and> y \<noteq> NaN \<and> x = y)"

definition f32_of_int :: "int \<Rightarrow> f32" where
  \<comment> \<open>the conversion \<^verbatim>\<open>(float) i\<close>\<close>
  "f32_of_int i = f32_round (of_int i)"

definition f32_to_int :: "f32 \<Rightarrow> int option" where
  \<comment> \<open>the cast \<^verbatim>\<open>(int) x\<close> truncates towards zero; it is undefined (\<open>None\<close>) when the
      truncated value is no 32-bit \<^verbatim>\<open>int\<close>, and for infinities and NaN\<close>
  "f32_to_int x =
     (case x of
        Fin q \<Rightarrow> (let t = (if 0 \<le> q then \<lfloor>q\<rfloor> else - \<lfloor>- q\<rfloor>)
                  in if - (2 ^ 31) \<le> t \<and> t < 2 ^ 31 then Some t else None)
      | _ \<Rightarrow> None)"

definition int_times_f32 :: "int \<Rightarrow> f32 \<Rightarrow> int option" where
  \<comment> \<open>the expression \<^verbatim>\<open>(int) (i * x)\<close> of lines 74, 75, 132, 133, 321 and 322: the \<^verbatim>\<open>int\<close>
      operand is converted to \<^verbatim>\<open>float\<close>, the product is a \<^verbatim>\<open>float\<close>\<close>
  "int_times_f32 i x = f32_to_int (f32_mul (f32_of_int i) x)"

text \<open>The literals \<^verbatim>\<open>0.8f\<close>, \<^verbatim>\<open>1.2f\<close>, \<^verbatim>\<open>0.1f\<close> and \<^verbatim>\<open>5.0f\<close>: decimals rounded to binary32.\<close>

definition f32_0_8 :: f32 where "f32_0_8 = f32_round (8 / 10)"
definition f32_1_2 :: f32 where "f32_1_2 = f32_round (12 / 10)"
definition f32_0_1 :: f32 where "f32_0_1 = f32_round (1 / 10)"
definition f32_5_0 :: f32 where "f32_5_0 = f32_round 5"

section \<open>Compositor: \<^verbatim>\<open>framebuffer_draw_image\<close>\<close>

text \<open>
  The three nested loops of lines 251--267, innermost first. Each loop is a recursive
  function over its counter; the shadow buffer is passed through.
\<close>

function draw_channels ::
  "Image \<Rightarrow> int \<Rightarrow> int \<Rightarrow> int \<Rightarrow> byte list \<Rightarrow> byte list option" where
  "draw_channels img fb_idx img_idx c buf =
     (if c < img_bpp img then
        (case load (img_data img) (img_idx + img_bpp img - 1 - c) of
           None \<Rightarrow> None
         | Some v \<Rightarrow>
             (case store buf (fb_idx + c) v of
                None \<Rightarrow> None
              | Some buf' \<Rightarrow> draw_channels img fb_idx img_idx (c + 1) buf'))
      else Some buf)"
  by pat_completeness auto
termination
  by (relation "measure (\<lambda>(img, fb_idx, img_idx, c, buf). nat (img_bpp img - c))") auto

function draw_row ::
  "framebuffer \<Rightarrow> Image \<Rightarrow> int \<Rightarrow> int \<Rightarrow> int \<Rightarrow> int \<Rightarrow> int \<Rightarrow> byte list \<Rightarrow> byte list option" where
  "draw_row fb img x_offset fb_row_offset img_row_offset screen_x_end x buf =
     (if x < screen_x_end then
        (let img_x = x - x_offset;
             fb_idx = fb_row_offset + (x * fb_bpp fb);
             img_idx = img_row_offset + (img_x * img_bpp img)
         in case draw_channels img fb_idx img_idx 0 buf of
              None \<Rightarrow> None
            | Some buf' \<Rightarrow>
                draw_row fb img x_offset fb_row_offset img_row_offset screen_x_end (x + 1) buf')
      else Some buf)"
  by pat_completeness auto
termination
  by (relation "measure (\<lambda>(fb, img, xo, fro, iro, xe, x, buf). nat (xe - x))") auto

function draw_rows ::
  "framebuffer \<Rightarrow> Image \<Rightarrow> int \<Rightarrow> int \<Rightarrow> int \<Rightarrow> int \<Rightarrow> int \<Rightarrow> int \<Rightarrow> byte list \<Rightarrow> byte list option" where
  "draw_rows fb img x_offset y_offset screen_x_start screen_x_end screen_y_end y buf =
     (if y < screen_y_end then
        (let fb_row_offset = y * fb_width fb * fb_bpp fb;
             img_y = y - y_offset;
             img_row_offset = img_y * img_width img * img_bpp img
         in case draw_row fb img x_offset fb_row_offset img_row_offset screen_x_end
                   screen_x_start buf of
              None \<Rightarrow> None
            | Some buf' \<Rightarrow>
                draw_rows fb img x_offset y_offset screen_x_start screen_x_end screen_y_end
                  (y + 1) buf')
      else Some buf)"
  by pat_completeness auto
termination
  by (relation "measure (\<lambda>(fb, img, xo, yo, xs, xe, ye, y, buf). nat (ye - y))") auto

text \<open>
  The function itself: the visible rectangle, the two early returns (empty rectangle,
  fewer than 3 bytes per pixel; the latter prints a diagnostic), then the loops. The
  result is the framebuffer after the call.
\<close>

definition framebuffer_draw_image ::
  "framebuffer \<Rightarrow> int \<Rightarrow> int \<Rightarrow> Image \<Rightarrow> framebuffer option" where
  "framebuffer_draw_image fb x_offset y_offset img =
     (let screen_x_start = (if x_offset < 0 then 0 else x_offset);
          screen_y_start = (if y_offset < 0 then 0 else y_offset);
          screen_x_end = (if x_offset + img_width img > fb_width fb then fb_width fb
                          else x_offset + img_width img);
          screen_y_end = (if y_offset + img_height img > fb_height fb then fb_height fb
                          else y_offset + img_height img)
      in if screen_x_start \<ge> screen_x_end \<or> screen_y_start \<ge> screen_y_end then Some fb
         else if fb_bpp fb < 3 then Some fb
         else
           (case draw_rows fb img x_offset y_offset screen_x_start screen_x_end screen_y_end
                   screen_y_start (fb_buffer fb) of
              None \<Rightarrow> None
            | Some buf' \<Rightarrow> Some (fb\<lparr>fb_buffer := buf'\<rparr>)))"

section \<open>Framebuffer: \<^verbatim>\<open>framebuffer_clear_color\<close> and \<^verbatim>\<open>framebuffer_update\<close>\<close>

text \<open>
  The fill loop of lines 224--228 advances by \<^verbatim>\<open>fb->bpp\<close>; on its own it would not end
  for a step below 1, so it is a partial function whose \<open>None\<close> is an access out of
  bounds or a loop that never ends. \<^verbatim>\<open>framebuffer_clear_color\<close> enters it only with a
  step of at least 3.
\<close>

partial_function (option) clear_loop ::
  "framebuffer \<Rightarrow> int \<Rightarrow> byte \<Rightarrow> byte \<Rightarrow> byte \<Rightarrow> int \<Rightarrow> byte list \<Rightarrow> byte list option" where
  "clear_loop fb screensize r g b i buf =
     (if i < screensize then
        (case store buf i b of
           None \<Rightarrow> None
         | Some buf1 \<Rightarrow>
             (case store buf1 (i + 1) g of
                None \<Rightarrow> None
              | Some buf2 \<Rightarrow>
                  (case store buf2 (i + 2) r of
                     None \<Rightarrow> None
                   | Some buf3 \<Rightarrow> clear_loop fb screensize r g b (i + fb_bpp fb) buf3)))
      else Some buf)"

declare clear_loop.simps [code]

definition framebuffer_clear_color ::
  "framebuffer \<Rightarrow> byte \<Rightarrow> byte \<Rightarrow> byte \<Rightarrow> framebuffer option" where
  "framebuffer_clear_color fb r g b =
     (let screensize = fb_width fb * fb_height fb * fb_bpp fb;
          bpp = fb_bpp fb
      in if bpp < 3 then Some fb
         else (case clear_loop fb screensize r g b 0 (fb_buffer fb) of
                 None \<Rightarrow> None
               | Some buf' \<Rightarrow> Some (fb\<lparr>fb_buffer := buf'\<rparr>)))"

text \<open>
  \<^verbatim>\<open>memcpy (fb->fbp, fb->buffer, screensize)\<close> copies the first \<open>screensize\<close> bytes of
  the shadow buffer over the device mapping; it is undefined when either block is
  shorter (a negative \<^verbatim>\<open>int\<close> is a huge \<^verbatim>\<open>size_t\<close>).
\<close>

definition framebuffer_update :: "framebuffer \<Rightarrow> framebuffer option" where
  "framebuffer_update fb =
     (let screensize = fb_width fb * fb_height fb * fb_bpp fb
      in if screensize < 0 \<or> int (length (fb_fbp fb)) < screensize
            \<or> int (length (fb_buffer fb)) < screensize then None
         else Some (fb\<lparr>fb_fbp := take (nat screensize) (fb_buffer fb)
                                   @ drop (nat screensize) (fb_fbp fb)\<rparr>))"

section \<open>Resampler: \<^verbatim>\<open>Image_resize_linear\<close>\<close>

text \<open>
  The loops of lines 319--329, innermost first. The destination block is passed through;
  \<open>None\<close> is an undefined cast or an access out of bounds. The indices of lines 323,
  324 and 326 are 32-bit values. The counters are not wrapped: they stay below the
  requested dimensions and the number of bytes per pixel, which are \<^verbatim>\<open>int\<close> values.
\<close>

function resize_channels ::
  "Image \<Rightarrow> int \<Rightarrow> int \<Rightarrow> int \<Rightarrow> byte list \<Rightarrow> byte list option" where
  "resize_channels src src_index dst_index c dst =
     (if c < img_bpp src then
        (case load (img_data src) (int32 (src_index + c)) of
           None \<Rightarrow> None
         | Some v \<Rightarrow>
             (case store dst (int32 (dst_index + c)) v of
                None \<Rightarrow> None
              | Some dst' \<Rightarrow> resize_channels src src_index dst_index (c + 1) dst'))
      else Some dst)"
  by pat_completeness auto
termination
  by (relation "measure (\<lambda>(src, src_index, dst_index, c, dst). nat (img_bpp src - c))") auto

function resize_row ::
  "Image \<Rightarrow> Image \<Rightarrow> f32 \<Rightarrow> f32 \<Rightarrow> int \<Rightarrow> int \<Rightarrow> int \<Rightarrow> byte list \<Rightarrow> byte list option" where
  "resize_row src resized x_ratio y_ratio new_width y x dst =
     (if x < new_width then
        (case int_times_f32 x x_ratio of
           None \<Rightarrow> None
         | Some src_x \<Rightarrow>
             (case int_times_f32 y y_ratio of
                None \<Rightarrow> None
              | Some src_y \<Rightarrow>
                  (let src_index = int32 (int32 (src_y * img_stride src)
                                            + int32 (src_x * img_bpp src));
                       dst_index = int32 (int32 (y * img_stride resized)
                                            + int32 (x * img_bpp resized))
                   in case resize_channels src src_index dst_index 0 dst of
                        None \<Rightarrow> None
                      | Some dst' \<Rightarrow>
                          resize_row src resized x_ratio y_ratio new_width y (x + 1) dst')))
      else Some dst)"
  by pat_completeness auto
termination
  by (relation "measure (\<lambda>(src, resized, xr, yr, nw, y, x, dst). nat (nw - x))") auto

function resize_rows ::
  "Image \<Rightarrow> Image \<Rightarrow> f32 \<Rightarrow> f32 \<Rightarrow> int \<Rightarrow> int \<Rightarrow> int \<Rightarrow> byte list \<Rightarrow> byte list option" where
  "resize_rows src resized x_ratio y_ratio new_width new_height y dst =
     (if y < new_height then
        (case resize_row src resized x_ratio y_ratio new_width y 0 dst of
           None \<Rightarrow> None
         | Some dst' \<Rightarrow>
             resize_rows src resized x_ratio y_ratio new_width new_height (y + 1) dst')
      else Some dst)"
  by pat_completeness auto
termination
  by (relation "measure (\<lambda>(src, resized, xr, yr, nw, nh, y, dst). nat (nh - y))") auto

text \<open>
  The function allocates the struct, then the pixel block of
  \<^verbatim>\<open>resized->height * resized->stride\<close> bytes; either allocation may fail, and the
  function then returns \<^verbatim>\<open>NULL\<close>. \<open>resize_env\<close> is what the two \<^verbatim>\<open>malloc\<close> calls of one
  call answer. The stride and the size are 32-bit products (lines 308 and 309): for
  30000 x 30000 the size is negative and the allocation fails; for 65540 x 65540 it is
  1572912, and the loops leave that block.
\<close>

record resize_env =
  env_struct :: bool
  env_data :: "(nat \<Rightarrow> byte) option"

definition Image_resize_linear ::
  "resize_env \<Rightarrow> Image \<Rightarrow> int \<Rightarrow> int \<Rightarrow> Image ptr option" where
  "Image_resize_linear env src new_width new_height =
     (if \<not> env_struct env then Some Null
      else
        (let stride = int32 (new_width * img_bpp src)
         in case malloc_bytes (env_data env) (int32 (new_height * stride)) of
              Null \<Rightarrow> Some Null
            | Ptr block \<Rightarrow>
                (let resized = \<lparr>img_width = new_width, img_height = new_height,
                                img_bpp = img_bpp src, img_stride = stride, img_data = block\<rparr>;
                     x_ratio = f32_div (f32_of_int (img_width src)) (f32_of_int new_width);
                     y_ratio = f32_div (f32_of_int (img_height src)) (f32_of_int new_height)
                 in case resize_rows src resized x_ratio y_ratio new_width new_height 0 block of
                      None \<Rightarrow> None
                    | Some block' \<Rightarrow> Some (Ptr (resized\<lparr>img_data := block'\<rparr>)))))"

section \<open>Interaction loop: \<^verbatim>\<open>main\<close>\<close>

text \<open>
  \<^verbatim>\<open>main\<close> is modelled from line 66 on, with the device opened and the image decoded.
  The state is the set of its local variables that live across the loop, and a log of
  the calls made so far, which is what the claims about redrawing and resampling speak
  of. Terminal configuration is left out.
\<close>

datatype call =
    Clear_color
  | Draw_image int int
  | Update
  | Getchar char
  | Resize_linear int int
  | Free_resized

record main_state =
  m_fb :: framebuffer
  m_img :: Image
  m_resized :: Image
  m_scale :: f32
  m_default_scale :: f32
  m_prev_scale :: f32
  m_calls :: "call list"

text \<open>Lines 68--71: the scale that fits the image into the device, times \<^verbatim>\<open>0.8f\<close>.\<close>

definition initial_scale :: "framebuffer \<Rightarrow> Image \<Rightarrow> f32" where
  "initial_scale fb img =
     (let scale_w = f32_div (f32_of_int (fb_width fb)) (f32_of_int (img_width img));
          scale_h = f32_div (f32_of_int (fb_height fb)) (f32_of_int (img_height img));
          scale = (if f32_lt scale_w scale_h then scale_w else scale_h)
      in f32_mul scale f32_0_8)"

text \<open>
  Lines 66--84. \<open>Inl 1\<close> is the early \<^verbatim>\<open>return 1\<close> when the first resize returns \<^verbatim>\<open>NULL\<close>;
  \<open>None\<close> is undefined behaviour.
\<close>

definition main_init :: "resize_env \<Rightarrow> framebuffer \<Rightarrow> Image \<Rightarrow> (int + main_state) option" where
  "main_init env fb img =
     (let default_scale = initial_scale fb img;
          scale = default_scale
      in case int_times_f32 (img_width img) scale of
           None \<Rightarrow> None
         | Some resized_width \<Rightarrow>
             (case int_times_f32 (img_height img) scale of
                None \<Rightarrow> None
              | Some resized_height \<Rightarrow>
                  (case Image_resize_linear env img resized_width resized_height of
                     None \<Rightarrow> None
                   | Some Null \<Rightarrow> Some (Inl 1)
                   | Some (Ptr resized) \<Rightarrow>
                       Some (Inr \<lparr>m_fb = fb, m_img = img, m_resized = resized,
                                  m_scale = scale, m_default_scale = default_scale,
                                  m_prev_scale = scale,
                                  m_calls = [Resize_linear resized_width resized_height]\<rparr>))))"

text \<open>
  Lines 98--103, the head of every iteration: centre the resized image (C's \<^verbatim>\<open>/\<close>
  truncates towards zero), clear, draw, flush.
\<close>

definition draw_frame :: "main_state \<Rightarrow> main_state option" where
  "draw_frame st =
     (let fb = m_fb st; resized = m_resized st;
          pos_x = (fb_width fb - img_width resized) sdiv 2;
          pos_y = (fb_height fb - img_height resized) sdiv 2
      in case framebuffer_clear_color fb 0 0 0 of
           None \<Rightarrow> None
         | Some fb1 \<Rightarrow>
             (case framebuffer_draw_image fb1 pos_x pos_y resized of
                None \<Rightarrow> None
              | Some fb2 \<Rightarrow>
                  (case framebuffer_update fb2 of
                     None \<Rightarrow> None
                   | Some fb3 \<Rightarrow>
                       Some (st\<lparr>m_fb := fb3,
                                m_calls := m_calls st @ [Clear_color, Draw_image pos_x pos_y, Update]\<rparr>))))"

text \<open>Lines 108--125: the effect of a key on the scale, then the two clamps.\<close>

definition key_scale :: "char \<Rightarrow> f32 \<Rightarrow> f32 \<Rightarrow> f32" where
  "key_scale ch default_scale scale =
     (if ch = CHR ''r'' then default_scale
      else if ch = CHR ''+'' then f32_mul scale f32_1_2
      else if ch = CHR ''-'' then f32_div scale f32_1_2
      else scale)"

definition clamp_scale :: "f32 \<Rightarrow> f32" where
  "clamp_scale scale =
     (let scale = (if f32_lt scale f32_0_1 then f32_0_1 else scale)
      in if f32_gt scale f32_5_0 then f32_5_0 else scale)"

text \<open>
  Lines 106--138, the rest of an iteration once \<^verbatim>\<open>getchar\<close> has returned \<open>ch\<close>:
  \<open>Break\<close> leaves the loop, \<open>Continue\<close> goes to the head of the next iteration (both the
  \<^verbatim>\<open>continue\<close> of line 127 and the end of the body do).
\<close>

datatype 'a control = Break 'a | Continue 'a

definition handle_key :: "resize_env \<Rightarrow> char \<Rightarrow> main_state \<Rightarrow> main_state control option" where
  "handle_key env ch st0 =
     (let st = st0\<lparr>m_calls := m_calls st0 @ [Getchar ch]\<rparr>
      in if ch = CHR ''q'' then Some (Break st)
         else
           (let scale = clamp_scale (key_scale ch (m_default_scale st) (m_scale st))
            in if f32_eq scale (m_prev_scale st) then Some (Continue (st\<lparr>m_scale := scale\<rparr>))
               else
                 (case int_times_f32 (img_width (m_img st)) scale of
                    None \<Rightarrow> None
                  | Some resized_width \<Rightarrow>
                      (case int_times_f32 (img_height (m_img st)) scale of
                         None \<Rightarrow> None
                       | Some resized_height \<Rightarrow>
                           (case Image_resize_linear env (m_img st) resized_width resized_height of
                              None \<Rightarrow> None
                            | Some Null \<Rightarrow>
                                Some (Continue (st\<lparr>m_scale := scale, m_prev_scale := scale,
                                  m_calls := m_calls st @ [Resize_linear resized_width resized_height]\<rparr>))
                            | Some (Ptr new_resized) \<Rightarrow>
                                Some (Continue (st\<lparr>m_resized := new_resized, m_scale := scale,
                                  m_prev_scale := scale,
                                  m_calls := m_calls st @ [Resize_linear resized_width resized_height,
                                                          Free_resized]\<rparr>)))))))"

text \<open>
  The loop of lines 97--139 over the keys that \<^verbatim>\<open>getchar\<close> delivers, each with the
  answers of the allocator should that iteration resample. When the keys are used up the
  loop has drawn its frame and blocks in \<^verbatim>\<open>getchar\<close>: \<open>Waiting\<close>. After \<^verbatim>\<open>q\<close>, \<^verbatim>\<open>main\<close>
  returns 0: \<open>Exited\<close>.
\<close>

datatype outcome = Waiting main_state | Exited int main_state

fun main_loop :: "(char \<times> resize_env) list \<Rightarrow> main_state \<Rightarrow> outcome option" where
  "main_loop [] st =
     (case draw_frame st of None \<Rightarrow> None | Some st1 \<Rightarrow> Some (Waiting st1))"
| "main_loop ((ch, env) # keys) st =
     (case draw_frame st of
        None \<Rightarrow> None
      | Some st1 \<Rightarrow>
          (case handle_key env ch st1 of
             None \<Rightarrow> None
           | Some (Break st2) \<Rightarrow> Some (Exited 0 st2)
           | Some (Continue st2) \<Rightarrow> main_loop keys st2))"

definition main :: "resize_env \<Rightarrow> (char \<times> resize_env) list \<Rightarrow> framebuffer \<Rightarrow> Image \<Rightarrow> (int + outcome) option" where
  "main env keys fb img =
     (case main_init env fb img of
        None \<Rightarrow> None
      | Some (Inl code) \<Rightarrow> Some (Inl code)
      | Some (Inr st) \<Rightarrow> map_option Inr (main_loop keys st))"

section \<open>Well-formed images\<close>

text \<open>
  The invariant of a decoded image (\<^verbatim>\<open>Image_load\<close>, lines 279--286; the decoder returns
  no image without pixels): positive dimensions, a positive number of bytes per pixel, a
  row of \<^verbatim>\<open>width * bpp\<close> bytes and a pixel block of \<^verbatim>\<open>height * stride\<close> bytes. A resized
  image has the same shape when its dimensions are positive (lines 305--309).
\<close>

definition wf_image :: "Image \<Rightarrow> bool" where
  "wf_image img =
     (0 < img_width img \<and> 0 < img_height img \<and> 0 < img_bpp img
      \<and> img_stride img = img_width img * img_bpp img
      \<and> int (length (img_data img)) = img_height img * img_stride img)"

section \<open>Reading results\<close>

text \<open>Projections used to state what a run has produced.\<close>

definition started :: "(int + main_state) option \<Rightarrow> main_state option" where
  \<comment> \<open>the state in which \<^verbatim>\<open>main\<close> enters its loop\<close>
  "started r = (case r of Some (Inr st) \<Rightarrow> Some st | _ \<Rightarrow> None)"

definition final_state :: "(int + outcome) option \<Rightarrow> main_state option" where
  "final_state r =
     (case r of
        Some (Inr (Waiting st)) \<Rightarrow> Some st
      | Some (Inr (Exited code st)) \<Rightarrow> Some st
      | _ \<Rightarrow> None)"

definition result_image :: "Image ptr option \<Rightarrow> Image option" where
  "result_image r = (case r of Some (Ptr img) \<Rightarrow> Some img | _ \<Rightarrow> None)"

definition pixel_byte :: "Image option \<Rightarrow> int \<Rightarrow> int \<Rightarrow> int \<Rightarrow> byte option" where
  \<comment> \<open>byte \<open>k\<close> of the pixel \<open>(x, y)\<close> of an image\<close>
  "pixel_byte r x y k =
     (case r of
        Some img \<Rightarrow> load (img_data img) (y * img_stride img + x * img_bpp img + k)
      | None \<Rightarrow> None)"

section \<open>Concrete inputs\<close>

text \<open>Small devices, images and allocator answers on which the theorems are instantiated.\<close>

definition fb_1x1 :: framebuffer where
  "fb_1x1 = \<lparr>fb_fbp = replicate 3 0, fb_buffer = replicate 3 0,
             fb_width = 1, fb_height = 1, fb_bpp = 3\<rparr>"

definition fb_2x2 :: framebuffer where
  "fb_2x2 = \<lparr>fb_fbp = replicate 12 0, fb_buffer = replicate 12 0,
             fb_width = 2, fb_height = 2, fb_bpp = 3\<rparr>"

definition fb_8x8 :: framebuffer where
  "fb_8x8 = \<lparr>fb_fbp = replicate 192 0, fb_buffer = replicate 192 0,
             fb_width = 8, fb_height = 8, fb_bpp = 3\<rparr>"

definition red_pixel :: Image where
  "red_pixel = \<lparr>img_width = 1, img_height = 1, img_bpp = 3, img_stride = 3,
                img_data = [255, 0, 0]\<rparr>"

definition img_2x2 :: Image where
  "img_2x2 = \<lparr>img_width = 2, img_height = 2, img_bpp = 3, img_stride = 6,
              img_data = [1, 2, 3, 4, 5, 6, 7, 8, 9, 10, 11, 12]\<rparr>"

definition img_9x9 :: Image where
  "img_9x9 = \<lparr>img_width = 9, img_height = 9, img_bpp = 3, img_stride = 27,
              img_data = replicate 243 0\<rparr>"

definition empty_image :: Image where
  "empty_image = \<lparr>img_width = 0, img_height = 0, img_bpp = 3, img_stride = 0, img_data = []\<rparr>"

definition env_ok :: resize_env where
  "env_ok = \<lparr>env_struct = True, env_data = Some (\<lambda>i. 0)\<rparr>"

definition env_fail :: resize_env where
  "env_fail = \<lparr>env_struct = True, env_data = None\<rparr>"


definition gradient_62 :: Image where
  \<comment> \<open>one row of 62 pixels; the three bytes of pixel \<open>k\<close> are \<open>k\<close>\<close>
  "gradient_62 = \<lparr>img_width = 62, img_height = 1, img_bpp = 3, img_stride = 186,
                  img_data = concat (map (\<lambda>k. [word_of_nat k, word_of_nat k, word_of_nat k])
                                      [0 ..< 62])\<rparr>"

definition wide_data :: "byte list" where
  "wide_data = replicate 50331651 0 @ [1, 1, 1]"

definition wide_image :: Image where
  \<comment> \<open>one row of \<open>2\<^sup>2\<^sup>4 + 2\<close> pixels, black but for the last one\<close>
  "wide_image = \<lparr>img_width = 16777218, img_height = 1, img_bpp = 3, img_stride = 50331654,
                 img_data = wide_data\<rparr>"

text \<open>States that the runs below reach.\<close>

definition tiny_final :: main_state where
  \<comment> \<open>a 9 x 9 image on a 1 x 1 device after the keys \<^verbatim>\<open>+\<close> and \<^verbatim>\<open>r\<close>\<close>
  "tiny_final =
     \<lparr>m_fb = fb_1x1, m_img = img_9x9, m_resized = empty_image,
      m_scale = Fin (13421773 / 134217728), m_default_scale = Fin (11930465 / 134217728),
      m_prev_scale = Fin (13421773 / 134217728),
      m_calls = [Resize_linear 0 0, Clear_color, Draw_image 0 0, Update,
                 Getchar CHR ''+'', Resize_linear 0 0, Free_resized,
                 Clear_color, Draw_image 0 0, Update,
                 Getchar CHR ''r'', Resize_linear 0 0, Free_resized,
                 Clear_color, Draw_image 0 0, Update]\<rparr>"

definition red_start :: main_state where
  \<comment> \<open>the 1 x 1 red image on a 2 x 2 device, at the entry of the loop\<close>
  "red_start =
     \<lparr>m_fb = fb_2x2, m_img = red_pixel, m_resized = red_pixel,
      m_scale = Fin (13421773 / 8388608), m_default_scale = Fin (13421773 / 8388608),
      m_prev_scale = Fin (13421773 / 8388608),
      m_calls = [Resize_linear 1 1]\<rparr>"

definition red_shown :: framebuffer where
  \<comment> \<open>the 2 x 2 device showing the red pixel at \<open>(0, 0)\<close>\<close>
  "red_shown = \<lparr>fb_fbp = [0, 0, 255, 0, 0, 0, 0, 0, 0, 0, 0, 0],
                fb_buffer = [0, 0, 255, 0, 0, 0, 0, 0, 0, 0, 0, 0],
                fb_width = 2, fb_height = 2, fb_bpp = 3\<rparr>"

definition red_final :: main_state where
  \<comment> \<open>the same after the keys \<^verbatim>\<open>+\<close> and \<^verbatim>\<open>r\<close>\<close>
  "red_final =
     \<lparr>m_fb = red_shown, m_img = red_pixel, m_resized = red_pixel,
      m_scale = Fin (13421773 / 8388608), m_default_scale = Fin (13421773 / 8388608),
      m_prev_scale = Fin (13421773 / 8388608),
      m_calls = [Resize_linear 1 1, Clear_color, Draw_image 0 0, Update,
                 Getchar CHR ''+'', Resize_linear 1 1, Free_resized,
                 Clear_color, Draw_image 0 0, Update,
                 Getchar CHR ''r'', Resize_linear 1 1, Free_resized,
                 Clear_color, Draw_image 0 0, Update]\<rparr>"

definition red_drawn :: main_state where
  \<comment> \<open>\<open>red_start\<close> after its first frame\<close>
  "red_drawn =
     red_start\<lparr>m_fb := red_shown,
               m_calls := [Resize_linear 1 1, Clear_color, Draw_image 0 0, Update]\<rparr>"

definition red_idle :: main_state where
  \<comment> \<open>\<open>red_start\<close> after the key \<^verbatim>\<open>x\<close>, waiting for the next key\<close>
  "red_idle =
     red_start\<lparr>m_fb := red_shown,
               m_calls := [Resize_linear 1 1, Clear_color, Draw_image 0 0, Update,
                           Getchar CHR ''x'', Clear_color, Draw_image 0 0, Update]\<rparr>"

definition img_10x10 :: Image where
  "img_10x10 = \<lparr>img_width = 10, img_height = 10, img_bpp = 3, img_stride = 30,
                img_data = replicate 300 0\<rparr>"

section \<open>Memory accesses and loops\<close>

text \<open>The loops are unfolded one iteration at a time, by hand.\<close>

declare draw_channels.simps [simp del] draw_row.simps [simp del] draw_rows.simps [simp del]
declare resize_channels.simps [simp del] resize_row.simps [simp del] resize_rows.simps [simp del]

lemma store_length: "store mem i v = Some mem' \<Longrightarrow> length mem' = length mem"
  by (auto simp: store_def split: if_splits)

lemma load_store:
  "store mem j v = Some mem' \<Longrightarrow> load mem' i = (if i = j then Some v else load mem i)"
  by (auto simp: store_def load_def nat_eq_iff split: if_splits)

lemma load_Some_iff: "(\<exists>v. load mem i = Some v) \<longleftrightarrow> 0 \<le> i \<and> i < int (length mem)"
  by (auto simp: load_def)

lemma store_Some_iff: "(\<exists>mem'. store mem i v = Some mem') \<longleftrightarrow> 0 \<le> i \<and> i < int (length mem)"
  by (auto simp: store_def)

lemma pixel_in_range:
  fixes x y w h b :: int
  assumes "0 \<le> y" "y < h" "0 \<le> x" "x < w" "0 \<le> b"
  shows "0 \<le> y * (w * b) + x * b" and "y * (w * b) + x * b + b \<le> h * (w * b)"
proof -
  have wb: "0 \<le> w * b" using assms by simp
  have "(x + 1) * b \<le> w * b" using assms by (intro mult_right_mono) auto
  then have 1: "x * b + b \<le> w * b" by (simp add: algebra_simps)
  have "(y + 1) * (w * b) \<le> h * (w * b)" using assms wb by (intro mult_right_mono) auto
  then have 2: "y * (w * b) + w * b \<le> h * (w * b)" by (simp add: algebra_simps)
  show "y * (w * b) + x * b + b \<le> h * (w * b)" using 1 2 by linarith
  have "0 \<le> y * (w * b)" "0 \<le> x * b" using assms wb by simp_all
  then show "0 \<le> y * (w * b) + x * b" by linarith
qed

lemma div_less_bound:
  fixes i m h :: int
  assumes "i < h * m" "0 < m"
  shows "i div m < h"
proof (rule ccontr)
  assume "\<not> i div m < h"
  then have "h * m \<le> (i div m) * m" using assms(2) by (intro mult_right_mono) auto
  moreover have "i = (i div m) * m + i mod m" by (rule div_mult_mod_eq [symmetric])
  moreover have "0 \<le> i mod m" using assms(2) by simp
  ultimately show False using assms(1) by linarith
qed

lemma decompose_index:
  fixes i w b h :: int
  assumes "0 \<le> i" "i < h * (w * b)" "0 < w" "0 < b"
  shows "\<exists>y x k. 0 \<le> y \<and> y < h \<and> 0 \<le> x \<and> x < w \<and> 0 \<le> k \<and> k < b
           \<and> i = y * (w * b) + x * b + k"
proof -
  define m where "m = w * b"
  have m: "0 < m" using assms(3,4) by (simp add: m_def)
  define y where "y = i div m"
  define r where "r = i mod m"
  have r: "0 \<le> r" "r < m" using m by (simp_all add: r_def)
  have "i = y * m + r" unfolding y_def r_def by (rule div_mult_mod_eq [symmetric])
  moreover have "r = (r div b) * b + r mod b" by (rule div_mult_mod_eq [symmetric])
  ultimately have e: "i = y * (w * b) + (r div b) * b + r mod b" unfolding m_def by linarith
  have y0: "0 \<le> y" using assms(1) m by (simp add: y_def pos_imp_zdiv_nonneg_iff)
  have y1: "y < h" unfolding y_def using assms(2) m unfolding m_def by (intro div_less_bound)
  have x0: "0 \<le> r div b" using r(1) assms(4) by (simp add: pos_imp_zdiv_nonneg_iff)
  have x1: "r div b < w" using r(2) assms(4) unfolding m_def by (intro div_less_bound)
  have k: "0 \<le> r mod b" "r mod b < b" using assms(4) by simp_all
  from e y0 y1 x0 x1 k show ?thesis by blast
qed

section \<open>Properties of the compositor\<close>

text \<open>
  Claim C6. When the placed bounds of the image
  \<open>[x_offset, x_offset + width) \<times> [y_offset, y_offset + height)\<close> and the device bounds
  \<open>[0, fb_width) \<times> [0, fb_height)\<close> have no pixel in common, \<open>framebuffer_draw_image\<close>
  returns normally and the framebuffer, hence every byte of the shadow buffer, is
  unchanged.
\<close>

theorem draw_image_outside_noop:
  assumes "({x_offset ..< x_offset + img_width img} \<times> {y_offset ..< y_offset + img_height img})
           \<inter> ({0 ..< fb_width fb} \<times> {0 ..< fb_height fb}) = {}"
  shows "framebuffer_draw_image fb x_offset y_offset img = Some fb"
proof -
  let ?xs = "max x_offset 0" and ?ys = "max y_offset 0"
  let ?xe = "min (x_offset + img_width img) (fb_width fb)"
  let ?ye = "min (y_offset + img_height img) (fb_height fb)"
  have "?xs \<ge> ?xe \<or> ?ys \<ge> ?ye"
  proof (rule ccontr)
    assume "\<not> (?xs \<ge> ?xe \<or> ?ys \<ge> ?ye)"
    then have "(?xs, ?ys) \<in> ({x_offset ..< x_offset + img_width img} \<times> {y_offset ..< y_offset + img_height img})
           \<inter> ({0 ..< fb_width fb} \<times> {0 ..< fb_height fb})"
      by auto
    with assms show False by blast
  qed
  then have "(if x_offset < 0 then 0 else x_offset)
      \<ge> (if x_offset + img_width img > fb_width fb then fb_width fb else x_offset + img_width img)
    \<or> (if y_offset < 0 then 0 else y_offset)
      \<ge> (if y_offset + img_height img > fb_height fb then fb_height fb
         else y_offset + img_height img)"
    unfolding max_def min_def by (auto split: if_splits)
  then show ?thesis
    unfolding framebuffer_draw_image_def Let_def by (rule if_P)
qed

theorem draw_image_outside_noop_witness:
  "framebuffer_draw_image fb_2x2 (fb_width fb_2x2 + 10) 0 red_pixel = Some fb_2x2"
proof -
  have "({fb_width fb_2x2 + 10 ..< fb_width fb_2x2 + 10 + img_width red_pixel}
           \<times> {0 ..< 0 + img_height red_pixel})
        \<inter> ({0 ..< fb_width fb_2x2} \<times> {0 ..< fb_height fb_2x2}) = {}"
    by (auto simp: fb_2x2_def red_pixel_def)
  then show ?thesis
    by (rule draw_image_outside_noop)
qed

subsection \<open>What the loops write\<close>

lemma draw_channels_total:
  assumes "\<forall>k. c \<le> k \<and> k < img_bpp img \<longrightarrow>
             0 \<le> img_idx + img_bpp img - 1 - k
             \<and> img_idx + img_bpp img - 1 - k < int (length (img_data img))"
    and "\<forall>k. c \<le> k \<and> k < img_bpp img \<longrightarrow>
             0 \<le> fb_idx + k \<and> fb_idx + k < int (length buf)"
  shows "\<exists>buf'. draw_channels img fb_idx img_idx c buf = Some buf'
           \<and> length buf' = length buf
           \<and> (\<forall>i. load buf' i =
                 (if fb_idx + c \<le> i \<and> i < fb_idx + img_bpp img
                  then load (img_data img) (img_idx + img_bpp img - 1 - (i - fb_idx))
                  else load buf i))"
  using assms
proof (induction img fb_idx img_idx c buf rule: draw_channels.induct)
  case (1 img fb_idx img_idx c buf)
  show ?case
  proof (cases "c < img_bpp img")
    case False
    then show ?thesis by (subst draw_channels.simps) auto
  next
    case True
    with "1.prems" have "0 \<le> img_idx + img_bpp img - 1 - c
        \<and> img_idx + img_bpp img - 1 - c < int (length (img_data img))"
      and "0 \<le> fb_idx + c \<and> fb_idx + c < int (length buf)" by auto
    then obtain v buf1 where v: "load (img_data img) (img_idx + img_bpp img - 1 - c) = Some v"
      and s: "store buf (fb_idx + c) v = Some buf1"
      using load_Some_iff store_Some_iff by metis
    have l1: "length buf1 = length buf" using s by (rule store_length)
    have "\<exists>buf'. draw_channels img fb_idx img_idx (c + 1) buf1 = Some buf'
           \<and> length buf' = length buf1
           \<and> (\<forall>i. load buf' i =
                 (if fb_idx + (c + 1) \<le> i \<and> i < fb_idx + img_bpp img
                  then load (img_data img) (img_idx + img_bpp img - 1 - (i - fb_idx))
                  else load buf1 i))"
      using "1.prems" l1 by (intro "1.IH" [OF True v s]) auto
    then obtain buf' where r: "draw_channels img fb_idx img_idx (c + 1) buf1 = Some buf'"
      and l: "length buf' = length buf1"
      and c: "\<And>i. load buf' i =
                 (if fb_idx + (c + 1) \<le> i \<and> i < fb_idx + img_bpp img
                  then load (img_data img) (img_idx + img_bpp img - 1 - (i - fb_idx))
                  else load buf1 i)"
      by blast
    have "draw_channels img fb_idx img_idx c buf = Some buf'"
      using True v s r by (subst draw_channels.simps) simp
    moreover have "\<And>i. load buf' i =
                 (if fb_idx + c \<le> i \<and> i < fb_idx + img_bpp img
                  then load (img_data img) (img_idx + img_bpp img - 1 - (i - fb_idx))
                  else load buf i)"
      using True v by (auto simp: c load_store [OF s])
    ultimately show ?thesis using l l1 by simp
  qed
qed

lemma draw_row_total:
  assumes b: "0 \<le> img_bpp img" "img_bpp img \<le> fb_bpp fb"
    and R: "\<forall>x'. x \<le> x' \<and> x' < screen_x_end \<longrightarrow>
              0 \<le> img_row_offset + (x' - x_offset) * img_bpp img
              \<and> img_row_offset + (x' - x_offset) * img_bpp img + img_bpp img
                   \<le> int (length (img_data img))"
    and W: "0 \<le> fb_row_offset + x * fb_bpp fb"
      "fb_row_offset + screen_x_end * fb_bpp fb \<le> int (length buf)"
  shows "\<exists>buf'. draw_row fb img x_offset fb_row_offset img_row_offset screen_x_end x buf = Some buf'
           \<and> length buf' = length buf
           \<and> (\<forall>i. i < fb_row_offset + x * fb_bpp fb
                    \<or> fb_row_offset + screen_x_end * fb_bpp fb \<le> i
                  \<longrightarrow> load buf' i = load buf i)
           \<and> (\<forall>x' k. x \<le> x' \<and> x' < screen_x_end \<and> 0 \<le> k \<and> k < img_bpp img
                  \<longrightarrow> load buf' (fb_row_offset + x' * fb_bpp fb + k)
                        = load (img_data img)
                            (img_row_offset + (x' - x_offset) * img_bpp img + img_bpp img - 1 - k))"
  using assms
proof (induction fb img x_offset fb_row_offset img_row_offset screen_x_end x buf rule: draw_row.induct)
  case (1 fb img x_offset fb_row_offset img_row_offset screen_x_end x buf)
  let ?b = "img_bpp img" and ?B = "fb_bpp fb"
  let ?D = "\<lambda>x. fb_row_offset + x * ?B"
  let ?S = "\<lambda>x. img_row_offset + (x - x_offset) * ?b"
  show ?case
  proof (cases "x < screen_x_end")
    case False
    then show ?thesis by (subst draw_row.simps) auto
  next
    case True
    have B0: "0 \<le> ?B" using "1.prems"(1,2) by linarith
    from "1.prems"(3) True have r0: "0 \<le> ?S x" and r1: "?S x + ?b \<le> int (length (img_data img))"
      by auto
    have step: "?D (x + 1) = ?D x + ?B" by (simp add: algebra_simps)
    have "(x + 1) * ?B \<le> screen_x_end * ?B" using True B0 by (intro mult_right_mono) auto
    then have xe: "x * ?B + ?B \<le> screen_x_end * ?B" by (simp add: algebra_simps)
    then have w1: "?D x + ?B \<le> int (length buf)" using "1.prems"(5) by linarith
    have "\<exists>buf1. draw_channels img (?D x) (?S x) 0 buf = Some buf1
           \<and> length buf1 = length buf
           \<and> (\<forall>i. load buf1 i =
                 (if ?D x + 0 \<le> i \<and> i < ?D x + ?b
                  then load (img_data img) (?S x + ?b - 1 - (i - ?D x)) else load buf i))"
      using r0 r1 w1 "1.prems"(1,2,4) by (intro draw_channels_total) auto
    then obtain buf1 where
      c: "draw_channels img (?D x) (?S x) 0 buf = Some buf1"
      and l1: "length buf1 = length buf"
      and c1: "\<And>i. load buf1 i =
                 (if ?D x \<le> i \<and> i < ?D x + ?b
                  then load (img_data img) (?S x + ?b - 1 - (i - ?D x)) else load buf i)"
      by auto
    have "\<exists>buf'. draw_row fb img x_offset fb_row_offset img_row_offset screen_x_end (x + 1) buf1 = Some buf'
           \<and> length buf' = length buf1
           \<and> (\<forall>i. i < ?D (x + 1) \<or> ?D screen_x_end \<le> i \<longrightarrow> load buf' i = load buf1 i)
           \<and> (\<forall>x' k. x + 1 \<le> x' \<and> x' < screen_x_end \<and> 0 \<le> k \<and> k < ?b
                  \<longrightarrow> load buf' (?D x' + k) = load (img_data img) (?S x' + ?b - 1 - k))"
    proof (rule "1.IH" [OF True refl refl refl c "1.prems"(1,2)])
      show "\<forall>x'. x + 1 \<le> x' \<and> x' < screen_x_end \<longrightarrow>
              0 \<le> ?S x' \<and> ?S x' + ?b \<le> int (length (img_data img))"
        using "1.prems"(3) by auto
      show "0 \<le> ?D (x + 1)" using "1.prems"(4) B0 unfolding step by linarith
      show "?D screen_x_end \<le> int (length buf1)" using "1.prems"(5) l1 by simp
    qed
    then obtain buf' where
      r: "draw_row fb img x_offset fb_row_offset img_row_offset screen_x_end (x + 1) buf1 = Some buf'"
      and l: "length buf' = length buf1"
      and fr: "\<And>i. i < ?D (x + 1) \<or> ?D screen_x_end \<le> i \<Longrightarrow> load buf' i = load buf1 i"
      and px: "\<And>x' k. x + 1 \<le> x' \<Longrightarrow> x' < screen_x_end \<Longrightarrow> 0 \<le> k \<Longrightarrow> k < ?b
                  \<Longrightarrow> load buf' (?D x' + k) = load (img_data img) (?S x' + ?b - 1 - k)"
      by blast
    have res: "draw_row fb img x_offset fb_row_offset img_row_offset screen_x_end x buf = Some buf'"
      using True c r by (subst draw_row.simps) (simp add: Let_def)
    have frame: "load buf' i = load buf i" if "i < ?D x \<or> ?D screen_x_end \<le> i" for i
    proof -
      have "i < ?D (x + 1) \<or> ?D screen_x_end \<le> i" using that B0 unfolding step by linarith
      then have "load buf' i = load buf1 i" by (rule fr)
      also have "\<dots> = load buf i" using that xe "1.prems"(2) by (auto simp: c1)
      finally show ?thesis .
    qed
    have pixel: "load buf' (?D x' + k) = load (img_data img) (?S x' + ?b - 1 - k)"
      if "x \<le> x'" "x' < screen_x_end" "0 \<le> k" "k < ?b" for x' k
    proof (cases "x' = x")
      case False
      with that show ?thesis by (intro px) auto
    next
      case True
      have "?D x + k < ?D (x + 1)" using that(4) "1.prems"(2) unfolding step by simp
      then have "load buf' (?D x + k) = load buf1 (?D x + k)" by (intro fr) simp
      also have "\<dots> = load (img_data img) (?S x + ?b - 1 - k)" using that(3,4) by (simp add: c1)
      finally show ?thesis using True by simp
    qed
    show ?thesis using res l l1 frame pixel by (intro exI [of _ buf']) simp
  qed
qed

lemma draw_rows_total:
  assumes b: "0 \<le> img_bpp img" "img_bpp img \<le> fb_bpp fb"
    and X: "0 \<le> screen_x_start" "screen_x_start \<le> screen_x_end" "screen_x_end \<le> fb_width fb"
      "x_offset \<le> screen_x_start" "screen_x_end \<le> x_offset + img_width img"
    and Y: "0 \<le> y" "y_offset \<le> y" "screen_y_end \<le> fb_height fb"
      "screen_y_end \<le> y_offset + img_height img"
    and len: "int (length buf) = fb_width fb * fb_height fb * fb_bpp fb"
      "int (length (img_data img)) = img_height img * (img_width img * img_bpp img)"
  shows "\<exists>buf'. draw_rows fb img x_offset y_offset screen_x_start screen_x_end screen_y_end y buf
             = Some buf'
           \<and> length buf' = length buf
           \<and> (\<forall>i. i < y * fb_width fb * fb_bpp fb \<or> screen_y_end * fb_width fb * fb_bpp fb \<le> i
                  \<longrightarrow> load buf' i = load buf i)
           \<and> (\<forall>x y' k. screen_x_start \<le> x \<and> x < screen_x_end \<and> y \<le> y' \<and> y' < screen_y_end
                    \<and> 0 \<le> k \<and> k < img_bpp img
                  \<longrightarrow> load buf' (y' * fb_width fb * fb_bpp fb + x * fb_bpp fb + k)
                        = load (img_data img)
                            ((y' - y_offset) * img_width img * img_bpp img
                               + (x - x_offset) * img_bpp img + img_bpp img - 1 - k))"
  using assms
proof (induction fb img x_offset y_offset screen_x_start screen_x_end screen_y_end y buf
    rule: draw_rows.induct)
  case (1 fb img x_offset y_offset screen_x_start screen_x_end screen_y_end y buf)
  let ?b = "img_bpp img" and ?B = "fb_bpp fb" and ?W = "fb_width fb" and ?H = "fb_height fb"
  let ?w = "img_width img" and ?h = "img_height img"
  let ?F = "\<lambda>y. y * ?W * ?B"
  let ?I = "\<lambda>y. (y - y_offset) * ?w * ?b"
  show ?case
  proof (cases "y < screen_y_end")
    case False
    then show ?thesis by (subst draw_rows.simps) auto
  next
    case True
    have B0: "0 \<le> ?B" using "1.prems"(1,2) by linarith
    have W0: "0 \<le> ?W" using "1.prems"(3,4,5) by linarith
    have RS0: "0 \<le> ?W * ?B" using B0 W0 by simp
    have step: "?F (y + 1) = ?F y + ?W * ?B" by (simp add: algebra_simps)
    have yH: "y < ?H" using True "1.prems"(10) by linarith
    have "(y + 1) * (?W * ?B) \<le> ?H * (?W * ?B)" using yH RS0 by (intro mult_right_mono) auto
    then have row_end: "?F y + ?W * ?B \<le> int (length buf)"
      by (simp add: "1.prems"(12) algebra_simps)
    have "screen_y_end * (?W * ?B) \<le> ?H * (?W * ?B)"
      using "1.prems"(10) RS0 by (intro mult_right_mono) auto
    then have all_end: "?F screen_y_end \<le> int (length buf)"
      by (simp add: "1.prems"(12) algebra_simps)
    have F0: "0 \<le> ?F y" using "1.prems"(8) W0 B0 by simp
    have xs0: "0 \<le> screen_x_start * ?B" using "1.prems"(3) B0 by simp
    have "screen_x_end * ?B \<le> ?W * ?B" using "1.prems"(5) B0 by (intro mult_right_mono) auto
    then have xe_le: "?F y + screen_x_end * ?B \<le> ?F y + ?W * ?B" by simp
    have "\<exists>buf1. draw_row fb img x_offset (?F y) (?I y) screen_x_end screen_x_start buf = Some buf1
           \<and> length buf1 = length buf
           \<and> (\<forall>i. i < ?F y + screen_x_start * ?B \<or> ?F y + screen_x_end * ?B \<le> i
                  \<longrightarrow> load buf1 i = load buf i)
           \<and> (\<forall>x' k. screen_x_start \<le> x' \<and> x' < screen_x_end \<and> 0 \<le> k \<and> k < ?b
                  \<longrightarrow> load buf1 (?F y + x' * ?B + k)
                        = load (img_data img) (?I y + (x' - x_offset) * ?b + ?b - 1 - k))"
    proof (rule draw_row_total [OF "1.prems"(1,2)])
      show "\<forall>x'. screen_x_start \<le> x' \<and> x' < screen_x_end \<longrightarrow>
              0 \<le> ?I y + (x' - x_offset) * ?b
              \<and> ?I y + (x' - x_offset) * ?b + ?b \<le> int (length (img_data img))"
      proof (intro allI impI)
        fix x' assume a: "screen_x_start \<le> x' \<and> x' < screen_x_end"
        have "0 \<le> y - y_offset" "y - y_offset < ?h" "0 \<le> x' - x_offset" "x' - x_offset < ?w"
          using a True "1.prems"(6,7,9,11) by linarith+
        from pixel_in_range [OF this "1.prems"(1)]
        show "0 \<le> ?I y + (x' - x_offset) * ?b
              \<and> ?I y + (x' - x_offset) * ?b + ?b \<le> int (length (img_data img))"
          by (simp add: "1.prems"(13) mult.assoc)
      qed
      show "0 \<le> ?F y + screen_x_start * ?B" using F0 xs0 by linarith
      show "?F y + screen_x_end * ?B \<le> int (length buf)" using xe_le row_end by linarith
    qed
    then obtain buf1 where
      c: "draw_row fb img x_offset (?F y) (?I y) screen_x_end screen_x_start buf = Some buf1"
      and l1: "length buf1 = length buf"
      and fr0: "\<And>i. i < ?F y + screen_x_start * ?B \<or> ?F y + screen_x_end * ?B \<le> i
                  \<Longrightarrow> load buf1 i = load buf i"
      and px1: "\<And>x' k. screen_x_start \<le> x' \<Longrightarrow> x' < screen_x_end \<Longrightarrow> 0 \<le> k \<Longrightarrow> k < ?b
                  \<Longrightarrow> load buf1 (?F y + x' * ?B + k)
                        = load (img_data img) (?I y + (x' - x_offset) * ?b + ?b - 1 - k)"
      by blast
    have fr1: "load buf1 i = load buf i" if "i < ?F y \<or> ?F y + ?W * ?B \<le> i" for i
      using that xs0 xe_le by (intro fr0) linarith
    have "\<exists>buf'. draw_rows fb img x_offset y_offset screen_x_start screen_x_end screen_y_end (y + 1) buf1
             = Some buf'
           \<and> length buf' = length buf1
           \<and> (\<forall>i. i < ?F (y + 1) \<or> ?F screen_y_end \<le> i \<longrightarrow> load buf' i = load buf1 i)
           \<and> (\<forall>x y' k. screen_x_start \<le> x \<and> x < screen_x_end \<and> y + 1 \<le> y' \<and> y' < screen_y_end
                    \<and> 0 \<le> k \<and> k < ?b
                  \<longrightarrow> load buf' (?F y' + x * ?B + k)
                        = load (img_data img) (?I y' + (x - x_offset) * ?b + ?b - 1 - k))"
    proof (rule "1.IH" [OF True refl refl refl c "1.prems"(1-7)])
      show "0 \<le> y + 1" using "1.prems"(8) by simp
      show "y_offset \<le> y + 1" using "1.prems"(9) by simp
      show "screen_y_end \<le> ?H" by (rule "1.prems"(10))
      show "screen_y_end \<le> y_offset + ?h" by (rule "1.prems"(11))
      show "int (length buf1) = ?W * ?H * ?B" using "1.prems"(12) l1 by simp
      show "int (length (img_data img)) = ?h * (?w * ?b)" by (rule "1.prems"(13))
    qed
    then obtain buf' where
      r: "draw_rows fb img x_offset y_offset screen_x_start screen_x_end screen_y_end (y + 1) buf1
            = Some buf'"
      and l: "length buf' = length buf1"
      and fr: "\<And>i. i < ?F (y + 1) \<or> ?F screen_y_end \<le> i \<Longrightarrow> load buf' i = load buf1 i"
      and px: "\<And>x y' k. screen_x_start \<le> x \<Longrightarrow> x < screen_x_end \<Longrightarrow> y + 1 \<le> y'
                    \<Longrightarrow> y' < screen_y_end \<Longrightarrow> 0 \<le> k \<Longrightarrow> k < ?b
                  \<Longrightarrow> load buf' (?F y' + x * ?B + k)
                        = load (img_data img) (?I y' + (x - x_offset) * ?b + ?b - 1 - k)"
      by blast
    have res: "draw_rows fb img x_offset y_offset screen_x_start screen_x_end screen_y_end y buf
                 = Some buf'"
      using True c r by (subst draw_rows.simps) (simp add: Let_def)
    have "(y + 1) * (?W * ?B) \<le> screen_y_end * (?W * ?B)"
      using True RS0 by (intro mult_right_mono) auto
    then have next_le: "?F (y + 1) \<le> ?F screen_y_end" by (simp add: algebra_simps)
    have frame: "load buf' i = load buf i" if "i < ?F y \<or> ?F screen_y_end \<le> i" for i
    proof -
      have "load buf' i = load buf1 i" using that RS0 by (intro fr) (auto simp: step)
      also have "\<dots> = load buf i" using that next_le by (intro fr1) (auto simp: step)
      finally show ?thesis .
    qed
    have pixel: "load buf' (?F y' + x * ?B + k)
                   = load (img_data img) (?I y' + (x - x_offset) * ?b + ?b - 1 - k)"
      if "screen_x_start \<le> x" "x < screen_x_end" "y \<le> y'" "y' < screen_y_end" "0 \<le> k" "k < ?b"
      for x y' k
    proof (cases "y' = y")
      case False
      with that show ?thesis by (intro px) auto
    next
      case True
      have "(x + 1) * ?B \<le> ?W * ?B" using that(2) "1.prems"(5) B0 by (intro mult_right_mono) auto
      then have "x * ?B + k < ?W * ?B" using that(6) "1.prems"(2) by (simp add: algebra_simps)
      then have "?F y + x * ?B + k < ?F (y + 1)" unfolding step by simp
      then have "load buf' (?F y + x * ?B + k) = load buf1 (?F y + x * ?B + k)"
        by (intro fr) simp
      also have "\<dots> = load (img_data img) (?I y + (x - x_offset) * ?b + ?b - 1 - k)"
        using that by (intro px1) auto
      finally show ?thesis using True by simp
    qed
    show ?thesis using res l l1 frame pixel by (intro exI [of _ buf']) simp
  qed
qed

text \<open>
  Claim C1. For a device of at least 3 bytes per pixel whose shadow buffer has
  \<open>width * height * bpp\<close> bytes and an image whose pixel block has \<open>height * width * bpp\<close>
  bytes and no more bytes per pixel than the device: the call returns normally, and for
  every device pixel \<open>(x, y)\<close> in the intersection of the placed image bounds with the
  device bounds and every channel index \<open>c\<close> of the image, byte \<open>c\<close> of that pixel in the
  shadow buffer is byte \<open>bpp - 1 - c\<close> of the source pixel \<open>(x - x_offset, y - y_offset)\<close>.
  The witness draws a pure red pixel \<open>(255, 0, 0)\<close> and finds the bytes \<open>0, 0, 255\<close>.
\<close>

theorem draw_image_reverses_channels:
  assumes "3 \<le> fb_bpp fb" "img_bpp img \<le> fb_bpp fb"
    and "int (length (fb_buffer fb)) = fb_width fb * fb_height fb * fb_bpp fb"
    and "int (length (img_data img)) = img_height img * (img_width img * img_bpp img)"
    and "(x, y) \<in> ({x_offset ..< x_offset + img_width img} \<times> {y_offset ..< y_offset + img_height img})
                  \<inter> ({0 ..< fb_width fb} \<times> {0 ..< fb_height fb})"
    and "0 \<le> c" "c < img_bpp img"
  shows "\<exists>fb'. framebuffer_draw_image fb x_offset y_offset img = Some fb'
           \<and> load (fb_buffer fb') (y * fb_width fb * fb_bpp fb + x * fb_bpp fb + c)
               = load (img_data img)
                   ((y - y_offset) * img_width img * img_bpp img + (x - x_offset) * img_bpp img
                      + (img_bpp img - 1 - c))
           \<and> load (img_data img)
                   ((y - y_offset) * img_width img * img_bpp img + (x - x_offset) * img_bpp img
                      + (img_bpp img - 1 - c)) \<noteq> None"
proof -
  let ?b = "img_bpp img" and ?B = "fb_bpp fb" and ?W = "fb_width fb" and ?H = "fb_height fb"
  let ?w = "img_width img" and ?h = "img_height img"
  define xs where "xs = (if x_offset < 0 then 0 else x_offset)"
  define ys where "ys = (if y_offset < 0 then 0 else y_offset)"
  define xe where "xe = (if x_offset + ?w > ?W then ?W else x_offset + ?w)"
  define ye where "ye = (if y_offset + ?h > ?H then ?H else y_offset + ?h)"
  from assms(5) have xy: "x_offset \<le> x" "x < x_offset + ?w" "y_offset \<le> y" "y < y_offset + ?h"
    "0 \<le> x" "x < ?W" "0 \<le> y" "y < ?H" by auto
  have xr: "xs \<le> x" "x < xe" "0 \<le> xs" "xe \<le> ?W" "x_offset \<le> xs" "xe \<le> x_offset + ?w"
    using xy by (auto simp: xs_def xe_def)
  have yr: "ys \<le> y" "y < ye" "0 \<le> ys" "ye \<le> ?H" "y_offset \<le> ys" "ye \<le> y_offset + ?h"
    using xy by (auto simp: ys_def ye_def)
  have b0: "0 \<le> ?b" using assms(6,7) by linarith
  have "\<exists>buf'. draw_rows fb img x_offset y_offset xs xe ye ys (fb_buffer fb) = Some buf'
           \<and> length buf' = length (fb_buffer fb)
           \<and> (\<forall>i. i < ys * ?W * ?B \<or> ye * ?W * ?B \<le> i \<longrightarrow> load buf' i = load (fb_buffer fb) i)
           \<and> (\<forall>x y' k. xs \<le> x \<and> x < xe \<and> ys \<le> y' \<and> y' < ye \<and> 0 \<le> k \<and> k < ?b
                  \<longrightarrow> load buf' (y' * ?W * ?B + x * ?B + k)
                        = load (img_data img)
                            ((y' - y_offset) * ?w * ?b + (x - x_offset) * ?b + ?b - 1 - k))"
    using b0 assms(2,3,4) xr yr by (intro draw_rows_total) auto
  then obtain buf' where
    d: "draw_rows fb img x_offset y_offset xs xe ye ys (fb_buffer fb) = Some buf'"
    and px: "\<And>x y' k. xs \<le> x \<Longrightarrow> x < xe \<Longrightarrow> ys \<le> y' \<Longrightarrow> y' < ye \<Longrightarrow> 0 \<le> k \<Longrightarrow> k < ?b
                  \<Longrightarrow> load buf' (y' * ?W * ?B + x * ?B + k)
                        = load (img_data img)
                            ((y' - y_offset) * ?w * ?b + (x - x_offset) * ?b + ?b - 1 - k)"
    by blast
  have "\<not> (xs \<ge> xe \<or> ys \<ge> ye)" using xr(1,2) yr(1,2) by linarith
  then have r: "framebuffer_draw_image fb x_offset y_offset img = Some (fb\<lparr>fb_buffer := buf'\<rparr>)"
    using assms(1) d
    by (simp add: framebuffer_draw_image_def Let_def xs_def [symmetric] ys_def [symmetric]
        xe_def [symmetric] ye_def [symmetric])
  have l: "load buf' (y * ?W * ?B + x * ?B + c)
             = load (img_data img) ((y - y_offset) * ?w * ?b + (x - x_offset) * ?b + ?b - 1 - c)"
    using xr(1,2) yr(1,2) assms(6,7) by (intro px)
  have i: "0 \<le> y - y_offset" "y - y_offset < ?h" "0 \<le> x - x_offset" "x - x_offset < ?w"
    using xy by linarith+
  from pixel_in_range [OF i b0]
  have "0 \<le> (y - y_offset) * ?w * ?b + (x - x_offset) * ?b + (?b - 1 - c)"
    "(y - y_offset) * ?w * ?b + (x - x_offset) * ?b + (?b - 1 - c) < int (length (img_data img))"
    using assms(6,7) by (simp_all add: assms(4) mult.assoc)
  then have "load (img_data img) ((y - y_offset) * ?w * ?b + (x - x_offset) * ?b + (?b - 1 - c)) \<noteq> None"
    by (simp add: load_def)
  moreover have e: "(y - y_offset) * ?w * ?b + (x - x_offset) * ?b + ?b - 1 - c
           = (y - y_offset) * ?w * ?b + (x - x_offset) * ?b + (?b - 1 - c)" by simp
  ultimately show ?thesis using r l unfolding e
    by (intro exI [of _ "fb\<lparr>fb_buffer := buf'\<rparr>"]) simp
qed

theorem draw_image_reverses_channels_witness:
  "load (img_data red_pixel) 0 = Some 255 \<and> load (img_data red_pixel) 1 = Some 0
   \<and> load (img_data red_pixel) 2 = Some 0
   \<and> (\<exists>fb'. framebuffer_draw_image fb_2x2 1 1 red_pixel = Some fb'
         \<and> load (fb_buffer fb') 9 = Some 0 \<and> load (fb_buffer fb') 10 = Some 0
         \<and> load (fb_buffer fb') 11 = Some 255)"
proof -
  have h: "3 \<le> fb_bpp fb_2x2" "img_bpp red_pixel \<le> fb_bpp fb_2x2"
    "int (length (fb_buffer fb_2x2)) = fb_width fb_2x2 * fb_height fb_2x2 * fb_bpp fb_2x2"
    "int (length (img_data red_pixel))
       = img_height red_pixel * (img_width red_pixel * img_bpp red_pixel)"
    by (simp_all add: fb_2x2_def red_pixel_def)
  have m: "(1, 1) \<in> ({1 ..< 1 + img_width red_pixel} \<times> {1 ..< 1 + img_height red_pixel})
                    \<inter> ({0 ..< fb_width fb_2x2} \<times> {0 ..< fb_height fb_2x2})"
    by (simp add: fb_2x2_def red_pixel_def)
  have s: "load (img_data red_pixel) 0 = Some 255" "load (img_data red_pixel) 1 = Some 0"
    "load (img_data red_pixel) 2 = Some 0"
    by (simp_all add: red_pixel_def load_def)
  have c: "(0::int) \<le> 0" "0 < img_bpp red_pixel" "(0::int) \<le> 1" "1 < img_bpp red_pixel"
    "(0::int) \<le> 2" "2 < img_bpp red_pixel"
    by (simp_all add: red_pixel_def)
  from draw_image_reverses_channels [OF h m c(1,2)]
    draw_image_reverses_channels [OF h m c(3,4)]
    draw_image_reverses_channels [OF h m c(5,6)]
  obtain fb' where "framebuffer_draw_image fb_2x2 1 1 red_pixel = Some fb'"
    "load (fb_buffer fb') 9 = load (img_data red_pixel) 2"
    "load (fb_buffer fb') 10 = load (img_data red_pixel) 1"
    "load (fb_buffer fb') 11 = load (img_data red_pixel) 0"
    by (auto simp: fb_2x2_def red_pixel_def)
  with s show ?thesis by auto
qed

section \<open>Properties of the floating-point operations\<close>

subsection \<open>Exponent and rounding to an integer\<close>

lemma ilog2_bounds:
  assumes "0 < q"
  shows "power_int 2 (ilog2 q) \<le> q" and "q < power_int 2 (ilog2 q + 1)"
proof -
  obtain n d where nd: "quotient_of q = (n, d)" by (cases "quotient_of q")
  then have d: "0 < d" and q: "q = of_int n / of_int d"
    by (simp_all add: quotient_of_denom_pos quotient_of_div)
  with assms have n: "0 < n" by (simp add: zero_less_divide_iff)
  define k where "k = bitlen n - bitlen d"
  have bn: "2 ^ nat (bitlen n - 1) \<le> n" "n < 2 ^ nat (bitlen n)"
    using bitlen_bounds [OF n] by auto
  have bd: "2 ^ nat (bitlen d - 1) \<le> d" "d < 2 ^ nat (bitlen d)"
    using bitlen_bounds [OF d] by auto
  have pn: "1 \<le> bitlen n" using n bitlen_eq_zero_iff [of n] bitlen_nonneg [of n] by linarith
  have pd: "1 \<le> bitlen d" using d bitlen_eq_zero_iff [of d] bitlen_nonneg [of d] by linarith
  have rn: "power_int 2 (bitlen n - 1) \<le> (of_int n :: rat)" "(of_int n :: rat) < power_int 2 (bitlen n)"
  proof -
    have "(of_int (2 ^ nat (bitlen n - 1)) :: rat) \<le> of_int n" using bn(1) by (simp only: of_int_le_iff)
    then show "power_int 2 (bitlen n - 1) \<le> (of_int n :: rat)"
      using pn by (simp add: power_int_def)
    have "(of_int n :: rat) < of_int (2 ^ nat (bitlen n))" using bn(2) by (simp only: of_int_less_iff)
    then show "(of_int n :: rat) < power_int 2 (bitlen n)"
      using pn by (simp add: power_int_def)
  qed
  have rd: "power_int 2 (bitlen d - 1) \<le> (of_int d :: rat)" "(of_int d :: rat) < power_int 2 (bitlen d)"
  proof -
    have "(of_int (2 ^ nat (bitlen d - 1)) :: rat) \<le> of_int d" using bd(1) by (simp only: of_int_le_iff)
    then show "power_int 2 (bitlen d - 1) \<le> (of_int d :: rat)"
      using pd by (simp add: power_int_def)
    have "(of_int d :: rat) < of_int (2 ^ nat (bitlen d))" using bd(2) by (simp only: of_int_less_iff)
    then show "(of_int d :: rat) < power_int 2 (bitlen d)"
      using pd by (simp add: power_int_def)
  qed
  have dpos: "(0::rat) < of_int d" using d by simp
  have lo: "power_int 2 (k - 1) \<le> q"
  proof -
    have "power_int 2 (k - 1) * (of_int d :: rat) \<le> power_int 2 (k - 1) * power_int 2 (bitlen d)"
      using rd(2) by (intro mult_left_mono) auto
    also have "\<dots> = power_int 2 (bitlen n - 1)"
      by (simp add: k_def power_int_add [symmetric])
    also have "\<dots> \<le> of_int n" by (rule rn(1))
    finally show ?thesis using dpos by (simp add: q pos_le_divide_eq)
  qed
  have hi: "q < power_int 2 (k + 1)"
  proof -
    have "(of_int n :: rat) < power_int 2 (bitlen n)" by (rule rn(2))
    also have "\<dots> = power_int 2 (k + 1) * power_int 2 (bitlen d - 1)"
      by (simp add: k_def power_int_add [symmetric])
    also have "\<dots> \<le> power_int 2 (k + 1) * of_int d"
      using rd(1) by (intro mult_left_mono) auto
    finally show ?thesis using dpos by (simp add: q pos_divide_less_eq)
  qed
  have il: "ilog2 q = (if power_int 2 k \<le> q then k else k - 1)"
    by (simp add: ilog2_def nd k_def Let_def)
  show "power_int 2 (ilog2 q) \<le> q" using lo by (simp add: il)
  show "q < power_int 2 (ilog2 q + 1)" using hi by (auto simp add: il)
qed

lemma round_even_of_int: "round_even (of_int n) = n"
  by (simp add: round_even_def)

lemma round_even_error: "\<bar>of_int (round_even q) - q\<bar> \<le> 1 / 2"
proof -
  have "of_int \<lfloor>q\<rfloor> \<le> q" "q < of_int \<lfloor>q\<rfloor> + 1" by linarith+
  then show ?thesis
    by (auto simp: round_even_def Let_def)
qed

lemma round_even_ge: "of_int n \<le> q \<Longrightarrow> n \<le> round_even q"
proof -
  assume "of_int n \<le> q"
  then have "n \<le> \<lfloor>q\<rfloor>" by (simp add: le_floor_iff)
  then show ?thesis by (auto simp: round_even_def Let_def)
qed

lemma power_int_2_less_cancel: "power_int (2::rat) a < power_int 2 b \<Longrightarrow> a < b"
  by (rule ccontr) (simp add: not_less power_int_increasing leD)

lemma ilog2_ge: "0 < q \<Longrightarrow> power_int 2 a \<le> q \<Longrightarrow> a \<le> ilog2 q"
proof -
  assume "0 < q" "power_int 2 a \<le> q"
  then have "power_int (2::rat) a < power_int 2 (ilog2 q + 1)"
    using ilog2_bounds(2) [of q] by linarith
  then show ?thesis using power_int_2_less_cancel by fastforce
qed

lemma ilog2_less: "0 < q \<Longrightarrow> q < power_int 2 a \<Longrightarrow> ilog2 q < a"
proof -
  assume "0 < q" "q < power_int 2 a"
  then have "power_int (2::rat) (ilog2 q) < power_int 2 a"
    using ilog2_bounds(1) [of q] by linarith
  then show ?thesis by (rule power_int_2_less_cancel)
qed
subsection \<open>Rounding to binary32\<close>

text \<open>
  A positive value of the normal range rounds to a finite value, with a relative error of
  at most \<open>2\<^sup>-\<^sup>2\<^sup>4\<close>, and not below the power of two under it.
\<close>

lemma f32_round_normal:
  assumes lo: "power_int 2 (- 126) \<le> q" and hi: "q < power_int 2 127"
  shows "\<exists>r. f32_round q = Fin r \<and> \<bar>r - q\<bar> \<le> q * power_int 2 (- 24)
             \<and> power_int 2 (ilog2 q) \<le> r"
proof -
  have "(0::rat) < power_int 2 (- 126)" by simp
  with lo have q0: "0 < q" by linarith
  define e where "e = ilog2 q"
  define ulp :: rat where "ulp = power_int 2 (e - 23)"
  define m where "m = round_even (q / ulp)"
  define r where "r = of_int m * ulp"
  have e_lo: "- 126 \<le> e" unfolding e_def using q0 lo by (rule ilog2_ge)
  have e_hi: "e < 127" unfolding e_def using q0 hi by (rule ilog2_less)
  have b1: "power_int 2 e \<le> q" and b2: "q < power_int 2 (e + 1)"
    unfolding e_def using ilog2_bounds [OF q0] by auto
  have ulp0: "0 < ulp" by (simp add: ulp_def)
  have half: "ulp / 2 = power_int 2 e * power_int 2 (- 24)"
    by (simp add: ulp_def power_int_diff)
  have "\<bar>of_int m - q / ulp\<bar> \<le> 1 / 2" unfolding m_def by (rule round_even_error)
  then have "\<bar>of_int m - q / ulp\<bar> * ulp \<le> 1 / 2 * ulp"
    using ulp0 by (intro mult_right_mono) auto
  then have "\<bar>of_int m - q / ulp\<bar> * \<bar>ulp\<bar> \<le> 1 / 2 * ulp"
    using ulp0 by simp
  moreover have "(of_int m - q / ulp) * ulp = r - q"
    using ulp0 by (simp add: r_def left_diff_distrib)
  ultimately have err: "\<bar>r - q\<bar> \<le> ulp / 2"
    by (simp add: abs_mult [symmetric])
  have rel: "\<bar>r - q\<bar> \<le> q * power_int 2 (- 24)"
  proof -
    have "ulp / 2 \<le> q * power_int 2 (- 24)"
      unfolding half using b1 by (intro mult_right_mono) auto
    with err show ?thesis by linarith
  qed
  have ge: "power_int 2 e \<le> r"
  proof -
    have "q / ulp \<ge> power_int 2 e / ulp" using b1 ulp0 by (simp add: divide_right_mono)
    moreover have "power_int 2 e / ulp = of_int (2 ^ 23)"
      by (simp add: ulp_def power_int_diff)
    ultimately have "2 ^ 23 \<le> m" unfolding m_def by (intro round_even_ge) simp
    then have "(of_int (2 ^ 23) :: rat) \<le> of_int m" by (simp only: of_int_le_iff)
    then have "of_int (2 ^ 23) * ulp \<le> r" unfolding r_def using ulp0 by (intro mult_right_mono) auto
    moreover have "of_int (2 ^ 23) * ulp = power_int 2 e" by (simp add: ulp_def power_int_diff)
    ultimately show ?thesis by simp
  qed
  have fin: "r < power_int 2 128"
  proof -
    have "r \<le> q + q * power_int 2 (- 24)" using rel by linarith
    also have "\<dots> \<le> q * 2" using q0 by simp
    also have "\<dots> < power_int 2 127 * 2" using hi by simp
    also have "\<dots> = power_int 2 128" by simp
    finally show ?thesis .
  qed
  have "f32_round q = Fin r"
    using q0 e_lo fin
    by (simp add: f32_round_def Let_def e_def [symmetric] max_def ulp_def [symmetric]
        m_def [symmetric] r_def [symmetric])
  with rel ge show ?thesis by (auto simp: e_def)
qed

text \<open>Integers below \<open>2\<^sup>2\<^sup>4\<close> in magnitude are binary32 values.\<close>

lemma f32_round_pos_int:
  assumes "0 < i" "i < 2 ^ 24"
  shows "f32_round (of_int i) = Fin (of_int i)"
proof -
  define q :: rat where "q = of_int i"
  have q0: "0 < q" using assms by (simp add: q_def)
  define e where "e = ilog2 q"
  have "power_int 2 0 \<le> q" using assms by (simp add: q_def)
  then have e_lo: "0 \<le> e" unfolding e_def using q0 by (intro ilog2_ge)
  have "(of_int i :: rat) < of_int (2 ^ 24)" using assms(2) by (simp only: of_int_less_iff)
  then have "q < power_int 2 24" by (simp add: q_def)
  then have e_hi: "e < 24" unfolding e_def using q0 by (intro ilog2_less)
  define ulp :: rat where "ulp = power_int 2 (e - 23)"
  have ulp: "ulp = 1 / 2 ^ nat (23 - e)" using e_hi by (simp add: ulp_def power_int_def field_simps)
  have "q / ulp = of_int (i * 2 ^ nat (23 - e))" by (simp add: ulp q_def)
  then have "round_even (q / ulp) = i * 2 ^ nat (23 - e)" by (simp only: round_even_of_int)
  then have r: "of_int (round_even (q / ulp)) * ulp = q" by (simp add: ulp q_def)
  have "q < power_int 2 128" using \<open>q < power_int 2 24\<close> by simp
  then have "f32_round q = Fin q"
    using q0 e_lo r
    by (simp add: f32_round_def Let_def e_def [symmetric] max_def ulp_def [symmetric])
  then show ?thesis by (simp add: q_def)
qed

lemma f32_round_small_int:
  assumes "\<bar>i\<bar> < 2 ^ 24"
  shows "f32_round (of_int i) = Fin (of_int i)"
proof -
  consider "i = 0" | "0 < i" | "i < 0" by linarith
  then show ?thesis
  proof cases
    case 1 then show ?thesis by (simp add: f32_round_def)
  next
    case 2 with assms show ?thesis by (intro f32_round_pos_int) auto
  next
    case 3
    with assms have "f32_round (of_int (- i)) = Fin (of_int (- i))" by (intro f32_round_pos_int) auto
    moreover have "f32_round (of_int i) = (case f32_round (of_int (- i)) of Fin r \<Rightarrow> Fin (- r) | PInf \<Rightarrow> NInf | x \<Rightarrow> x)"
      using 3 by (simp add: f32_round_def Let_def)
    ultimately show ?thesis by simp
  qed
qed
text \<open>Evaluation of the conversion and of the four literals.\<close>

lemma f32_of_int_code [code]:
  "f32_of_int i = (if \<bar>i\<bar> < 2 ^ 24 then Fin (of_int i) else f32_round (of_int i))"
  by (simp add: f32_of_int_def f32_round_small_int)

lemma f32_0_8_value [code]: "f32_0_8 = Fin (13421773 / 16777216)" unfolding f32_0_8_def by code_simp
lemma f32_1_2_value [code]: "f32_1_2 = Fin (5033165 / 4194304)" unfolding f32_1_2_def by code_simp
lemma f32_0_1_value [code]: "f32_0_1 = Fin (13421773 / 134217728)" unfolding f32_0_1_def by code_simp
lemma f32_5_0_value [code]: "f32_5_0 = Fin 5" unfolding f32_5_0_def by code_simp

subsection \<open>No operation of the loop produces a NaN\<close>

lemma f32_round_not_NaN: "f32_round q \<noteq> NaN"
  by (simp add: f32_round_def Let_def)

lemma f32_of_int_pos:
  assumes "0 < i" "i < 2 ^ 31"
  shows "\<exists>b. f32_of_int i = Fin b \<and> 0 < b"
proof -
  have "(of_int 1 :: rat) \<le> of_int i" using assms(1) by simp
  then have lo: "power_int 2 (- 126) \<le> (of_int i :: rat)"
    by (simp add: power_int_minus)
  have "(of_int i :: rat) < of_int (2 ^ 31)" using assms(2) by (simp only: of_int_less_iff)
  then have hi: "(of_int i :: rat) < power_int 2 127" by simp
  from f32_round_normal [OF lo hi] obtain r where
    r: "f32_round (of_int i) = Fin r" "power_int 2 (ilog2 (of_int i)) \<le> r" by blast
  have "(0::rat) < power_int 2 (ilog2 (of_int i))" by simp
  with r(2) have "0 < r" by linarith
  with r(1) show ?thesis by (simp add: f32_of_int_def)
qed

lemma div_by_pos_not_NaN: "0 < b \<Longrightarrow> f32_div (f32_round a) (Fin b) \<noteq> NaN"
  by (cases "f32_round a") (auto simp: f32_div_def f32_round_not_NaN)

lemma mul_const_not_NaN: "x \<noteq> NaN \<Longrightarrow> 0 < c \<Longrightarrow> f32_mul x (Fin c) \<noteq> NaN"
  by (cases x) (auto simp: f32_mul_def f32_round_not_NaN f32_inf_def f32_sign_def)

lemma div_const_not_NaN: "x \<noteq> NaN \<Longrightarrow> 0 < c \<Longrightarrow> f32_div x (Fin c) \<noteq> NaN"
  by (cases x) (auto simp: f32_div_def f32_round_not_NaN)

lemma initial_scale_not_NaN:
  assumes "0 < img_width img" "img_width img < 2 ^ 31" "0 < img_height img" "img_height img < 2 ^ 31"
  shows "initial_scale fb img \<noteq> NaN"
proof -
  obtain bw where bw: "f32_of_int (img_width img) = Fin bw" "0 < bw"
    using f32_of_int_pos assms(1,2) by blast
  obtain bh where bh: "f32_of_int (img_height img) = Fin bh" "0 < bh"
    using f32_of_int_pos assms(3,4) by blast
  have "f32_div (f32_of_int (fb_width fb)) (Fin bw) \<noteq> NaN"
    unfolding f32_of_int_def using bw(2) by (rule div_by_pos_not_NaN)
  then have w: "f32_div (f32_of_int (fb_width fb)) (f32_of_int (img_width img)) \<noteq> NaN"
    unfolding bw(1) .
  have "f32_div (f32_of_int (fb_height fb)) (Fin bh) \<noteq> NaN"
    unfolding f32_of_int_def using bh(2) by (rule div_by_pos_not_NaN)
  then have h: "f32_div (f32_of_int (fb_height fb)) (f32_of_int (img_height img)) \<noteq> NaN"
    unfolding bh(1) .
  show ?thesis
    unfolding initial_scale_def Let_def f32_0_8_value
    using w h by (intro mul_const_not_NaN) auto
qed

lemma key_scale_not_NaN:
  "scale \<noteq> NaN \<Longrightarrow> default_scale \<noteq> NaN \<Longrightarrow> key_scale ch default_scale scale \<noteq> NaN"
  by (simp add: key_scale_def f32_1_2_value mul_const_not_NaN div_const_not_NaN)

lemma clamp_scale_range:
  assumes "x \<noteq> NaN"
  shows "\<exists>q. clamp_scale x = Fin q \<and> 13421773 / 134217728 \<le> q \<and> q \<le> 5"
proof -
  consider (low) "f32_lt x f32_0_1"
    | (high) "\<not> f32_lt x f32_0_1" "f32_gt x f32_5_0"
    | (mid) "\<not> f32_lt x f32_0_1" "\<not> f32_gt x f32_5_0" by blast
  then show ?thesis
  proof cases
    case low
    then have "clamp_scale x = Fin (13421773 / 134217728)"
      by (simp add: clamp_scale_def Let_def f32_0_1_value f32_5_0_value f32_gt_def)
    then show ?thesis by (intro exI [of _ "13421773 / 134217728"]) simp
  next
    case high
    then have "clamp_scale x = Fin 5"
      by (simp add: clamp_scale_def Let_def f32_5_0_value)
    then show ?thesis by (intro exI [of _ 5]) simp
  next
    case mid
    then have c: "clamp_scale x = x" by (simp add: clamp_scale_def Let_def)
    from mid assms obtain q where "x = Fin q" "13421773 / 134217728 \<le> q" "q \<le> 5"
      by (cases x) (auto simp: f32_0_1_value f32_5_0_value f32_gt_def)
    with c show ?thesis by (intro exI [of _ q]) simp
  qed
qed

subsection \<open>Products of an integer and a scale or ratio\<close>

lemma f32_of_int_exact:
  assumes "\<bar>i\<bar> \<le> 2 ^ 24"
  shows "f32_of_int i = Fin (of_int i)"
proof -
  consider "\<bar>i\<bar> < 2 ^ 24" | "i = 2 ^ 24" | "i = - (2 ^ 24)" using assms by linarith
  then show ?thesis
  proof cases
    case 1 then show ?thesis by (simp add: f32_of_int_def f32_round_small_int)
  next
    case 2
    have "f32_of_int 16777216 = Fin 16777216" by code_simp
    with 2 show ?thesis by simp
  next
    case 3
    have "f32_of_int (- 16777216) = Fin (- 16777216)" by code_simp
    with 3 show ?thesis by simp
  qed
qed

lemma int_times_clamped:
  assumes "10 \<le> n" "n \<le> 2 ^ 24" "13421773 / 134217728 \<le> q" "q \<le> 5"
  shows "\<exists>k. int_times_f32 n (Fin q) = Some k \<and> 0 < k"
proof -
  define p :: rat where "p = of_int n * q"
  have n10: "(10::rat) \<le> of_int n" using assms(1) by simp
  have "(of_int n :: rat) \<le> of_int (2 ^ 24)" using assms(2) by (simp only: of_int_le_iff)
  then have n24: "(of_int n :: rat) \<le> 16777216" by simp
  have "10 * (13421773 / 134217728) \<le> of_int n * q"
    using n10 assms(3) by (intro mult_mono) auto
  then have p1: "1 \<le> p" unfolding p_def by simp
  have "of_int n * q \<le> 16777216 * 5"
    using n24 assms(3,4) by (intro mult_mono) auto
  then have p2: "p \<le> 83886080" unfolding p_def by simp
  have lo: "power_int 2 (- 126) \<le> p" using p1 by (simp add: power_int_minus) 
  have hi: "p < power_int 2 127" using p2 by simp
  from f32_round_normal [OF lo hi] obtain r where
    r: "f32_round p = Fin r" "\<bar>r - p\<bar> \<le> p * power_int 2 (- 24)" "power_int 2 (ilog2 p) \<le> r"
    by blast
  have "0 \<le> ilog2 p" using p1 by (intro ilog2_ge) auto
  then have "power_int (2::rat) 0 \<le> power_int 2 (ilog2 p)" by (intro power_int_increasing) auto
  with r(3) have r1: "1 \<le> r" by simp
  have "r \<le> p + p * power_int 2 (- 24)" using r(2) by linarith
  also have "\<dots> \<le> p * 2" using p1 by (simp add: power_int_minus)
  also have "\<dots> \<le> 83886080 * 2" using p2 by simp
  finally have r2: "r \<le> 167772160" by simp
  have f1: "1 \<le> \<lfloor>r\<rfloor>" using r1 by (simp add: le_floor_iff)
  have f2: "\<lfloor>r\<rfloor> \<le> 167772160" using r2 by (simp add: floor_le_iff) 
  have "f32_of_int n = Fin (of_int n)" using assms(1,2) by (intro f32_of_int_exact) auto
  then have "int_times_f32 n (Fin q) = f32_to_int (Fin r)"
    by (simp add: int_times_f32_def f32_mul_def r(1) [unfolded p_def])
  also have "\<dots> = Some \<lfloor>r\<rfloor>" using r1 f1 f2 by (simp add: f32_to_int_def Let_def)
  finally show ?thesis using f1 by simp
qed

lemma f32_to_int_nonneg:
  assumes "0 \<le> r" "r < 2 ^ 31"
  shows "f32_to_int (Fin r) = Some \<lfloor>r\<rfloor>"
proof -
  have "0 \<le> \<lfloor>r\<rfloor>" using assms(1) by simp
  moreover have "\<lfloor>r\<rfloor> < 2 ^ 31" using assms(2) by (simp add: floor_less_iff)
  ultimately show ?thesis using assms(1) by (simp add: f32_to_int_def Let_def)
qed

text \<open>
  The source index of line 321: for a source of at most \<open>2\<^sup>2\<^sup>4\<close> and a target of at most
  \<open>2\<^sup>2\<^sup>3\<close> pixels in a direction, the two roundings cannot lift the product up to the
  source dimension.
\<close>

lemma src_index_bound:
  assumes "0 < sw" "sw \<le> 2 ^ 24" "0 < nw" "nw \<le> 2 ^ 23" "0 \<le> x" "x < nw"
  shows "\<exists>sx. int_times_f32 x (f32_div (f32_of_int sw) (f32_of_int nw)) = Some sx
              \<and> 0 \<le> sx \<and> sx < sw"
proof -
  define u :: rat where "u = power_int 2 (- 24)"
  define S :: rat where "S = of_int sw"
  define N :: rat where "N = of_int nw"
  define X :: rat where "X = of_int x"
  define q where "q = S / N"
  have u: "u = 1 / 16777216" by (simp add: u_def power_int_minus)
  have S1: "1 \<le> S" and S24: "S \<le> 16777216"
  proof -
    have "(of_int 1 :: rat) \<le> of_int sw" using assms(1) by simp
    then show "1 \<le> S" by (simp add: S_def)
    have "(of_int sw :: rat) \<le> of_int (2 ^ 24)" using assms(2) by (simp only: of_int_le_iff)
    then show "S \<le> 16777216" by (simp add: S_def)
  qed
  have N1: "1 \<le> N" and N23: "N \<le> 8388608"
  proof -
    have "(of_int 1 :: rat) \<le> of_int nw" using assms(3) by simp
    then show "1 \<le> N" by (simp add: N_def)
    have "(of_int nw :: rat) \<le> of_int (2 ^ 23)" using assms(4) by (simp only: of_int_le_iff)
    then show "N \<le> 8388608" by (simp add: N_def)
  qed
  have X0: "0 \<le> X" and XN: "X + 1 \<le> N"
  proof -
    show "0 \<le> X" using assms(5) by (simp add: X_def)
    have "(of_int (x + 1) :: rat) \<le> of_int nw" using assms(6) by simp
    then show "X + 1 \<le> N" by (simp add: X_def N_def)
  qed
  have cs: "f32_of_int sw = Fin S" unfolding S_def using assms(1,2) by (intro f32_of_int_exact) auto
  have cn: "f32_of_int nw = Fin N" unfolding N_def using assms(3,4) by (intro f32_of_int_exact) auto
  have cx: "f32_of_int x = Fin X" unfolding X_def using assms(4,5,6) by (intro f32_of_int_exact) auto
  have N0: "N \<noteq> 0" "0 < N" using N1 by auto
  have q_lo: "1 / 8388608 \<le> q"
  proof -
    have "1 / 8388608 \<le> 1 / N" using N23 N0 by (simp add: field_simps)
    also have "\<dots> \<le> S / N" using S1 N0 by (simp add: divide_right_mono)
    finally show ?thesis by (simp add: q_def)
  qed
  have q_hi: "q \<le> 16777216"
  proof -
    have "S / N \<le> S / 1" using N1 S1 by (intro divide_left_mono) auto
    then show ?thesis using S24 by (simp add: q_def)
  qed
  have "power_int 2 (- 126) \<le> (1 / 8388608 :: rat)" by (simp add: power_int_minus)
  with q_lo have lo: "power_int 2 (- 126) \<le> q" by linarith
  have hi: "q < power_int 2 127" using q_hi by simp
  from f32_round_normal [OF lo hi] obtain r where
    r: "f32_round q = Fin r" and re: "\<bar>r - q\<bar> \<le> q * u" and rp: "power_int 2 (ilog2 q) \<le> r"
    unfolding u_def by blast
  have "(0::rat) < power_int 2 (ilog2 q)" by simp
  with rp have r0: "0 < r" by linarith
  have ratio: "f32_div (f32_of_int sw) (f32_of_int nw) = Fin r"
    using N0 r by (simp add: cs cn f32_div_def q_def)
  have prod: "int_times_f32 x (Fin r) = f32_to_int (f32_round (X * r))"
    by (simp add: int_times_f32_def cx f32_mul_def)
  show ?thesis
  proof (cases "x = 0")
    case True
    then have "X = 0" by (simp add: X_def)
    then have "f32_round (X * r) = Fin 0" by (simp add: f32_round_def)
    then have "int_times_f32 x (Fin r) = Some 0"
      unfolding prod by (simp add: f32_to_int_def)
    then show ?thesis using assms(1) by (simp add: ratio)
  next
    case False
    then have "(of_int 1 :: rat) \<le> of_int x" using assms(5) by simp
    then have X1: "1 \<le> X" by (simp add: X_def)
    define p where "p = X * r"
    have r_lo: "q * (1 - u) \<le> r" and r_hi: "r \<le> q * (1 + u)"
      using re by (simp_all add: algebra_simps abs_le_iff)
    have "1 / 8388608 * (1 - u) \<le> q * (1 - u)" using q_lo by (intro mult_right_mono) (auto simp: u)
    then have "1 / 16777216 \<le> r" using r_lo by (simp add: u)
    moreover have "1 * r \<le> X * r" using X1 r0 by (intro mult_right_mono) auto
    ultimately have p_lo': "1 / 16777216 \<le> p" unfolding p_def by linarith
    have "power_int 2 (- 126) \<le> (1 / 16777216 :: rat)" by (simp add: power_int_minus)
    with p_lo' have p_lo: "power_int 2 (- 126) \<le> p" by linarith
    have "X * r \<le> (N - 1) * (q * (1 + u))"
      using XN X0 r_hi r0 by (intro mult_mono) auto
    also have "\<dots> = S * ((1 - 1 / N) * (1 + u))" using N0 by (simp add: q_def field_simps)
    finally have p_hi': "p \<le> S * ((1 - 1 / N) * (1 + u))" by (simp add: p_def)
    have t: "1 - 1 / N \<le> 1 - 2 * u"
    proof -
      have "1 / 8388608 \<le> 1 / N" using N23 N0 by (simp add: field_simps)
      then show ?thesis by (simp add: u)
    qed
    have "0 \<le> 1 - 1 / N" using N1 by simp
    have "S * ((1 - 1 / N) * (1 + u)) \<le> S * ((1 - 2 * u) * (1 + u))"
      using t S1 by (intro mult_left_mono mult_right_mono) (auto simp: u)
    with p_hi' have p_hi2: "p \<le> S * ((1 - 2 * u) * (1 + u))" by linarith
    have "S * ((1 - 2 * u) * (1 + u)) \<le> S * 1"
      using S1 by (intro mult_left_mono) (auto simp: u)
    with p_hi2 S24 have "p \<le> 16777216" by linarith
    then have p_hi: "p < power_int 2 127" by simp
    from f32_round_normal [OF p_lo p_hi] obtain r' where
      r': "f32_round p = Fin r'" and re': "\<bar>r' - p\<bar> \<le> p * u"
      and rp': "power_int 2 (ilog2 p) \<le> r'"
      unfolding u_def by blast
    have "(0::rat) < power_int 2 (ilog2 p)" by simp
    with rp' have r'0: "0 < r'" by linarith
    have "r' \<le> p * (1 + u)" using re' by (simp add: algebra_simps abs_le_iff)
    also have "\<dots> \<le> S * ((1 - 2 * u) * (1 + u)) * (1 + u)"
      using p_hi2 by (intro mult_right_mono) (auto simp: u)
    also have "\<dots> = S * ((1 - 2 * u) * (1 + u) * (1 + u))" by simp
    also have "\<dots> < S * 1"
      using S1 by (intro mult_strict_left_mono) (auto simp: u)
    finally have r'S: "r' < S" by simp
    then have "r' < 2 ^ 31" using S24 by simp
    with r'0 have "f32_to_int (Fin r') = Some \<lfloor>r'\<rfloor>" by (intro f32_to_int_nonneg) auto
    then have "int_times_f32 x (Fin r) = Some \<lfloor>r'\<rfloor>" by (simp add: prod r' [unfolded p_def])
    moreover have "0 \<le> \<lfloor>r'\<rfloor>" using r'0 by simp
    moreover have "\<lfloor>r'\<rfloor> < sw" using r'S by (simp add: S_def floor_less_iff)
    ultimately show ?thesis by (simp add: ratio)
  qed
qed

lemma f32_to_int_nonneg_int:
  assumes "0 \<le> x" "x < 2 ^ 31"
  shows "f32_to_int (Fin (of_int x)) = Some x"
  using assms by (simp add: f32_to_int_def Let_def)

lemma int_times_one:
  assumes "0 \<le> x" "x \<le> 2 ^ 24"
  shows "int_times_f32 x (Fin 1) = Some x"
proof -
  have a: "f32_of_int x = Fin (of_int x)" using assms by (intro f32_of_int_exact) auto
  then have "f32_round (of_int x) = Fin (of_int x)" by (simp add: f32_of_int_def)
  then have "f32_mul (f32_of_int x) (Fin 1) = Fin (of_int x)" by (simp add: a f32_mul_def)
  then show ?thesis unfolding int_times_f32_def using assms by (simp add: f32_to_int_nonneg_int)
qed

lemma ratio_one:
  assumes "0 < w" "w \<le> 2 ^ 24"
  shows "f32_div (f32_of_int w) (f32_of_int w) = Fin 1"
proof -
  have a: "f32_of_int w = Fin (of_int w)" using assms by (intro f32_of_int_exact) auto
  have "f32_round (of_int 1) = Fin (of_int 1)" by (intro f32_round_small_int) simp
  then show ?thesis using assms(1) by (simp add: a f32_div_def)
qed

section \<open>Properties of the interaction loop\<close>

subsection \<open>What one frame and one key do to the state\<close>

lemma clear_color_geometry:
  "framebuffer_clear_color fb r g b = Some fb' \<Longrightarrow>
     fb_width fb' = fb_width fb \<and> fb_height fb' = fb_height fb \<and> fb_bpp fb' = fb_bpp fb"
  by (auto simp: framebuffer_clear_color_def Let_def split: if_splits option.splits)

lemma draw_image_geometry:
  "framebuffer_draw_image fb x y img = Some fb' \<Longrightarrow>
     fb_width fb' = fb_width fb \<and> fb_height fb' = fb_height fb \<and> fb_bpp fb' = fb_bpp fb"
  unfolding framebuffer_draw_image_def Let_def
  by (auto split: if_splits option.splits)

lemma update_geometry:
  "framebuffer_update fb = Some fb' \<Longrightarrow>
     fb_width fb' = fb_width fb \<and> fb_height fb' = fb_height fb \<and> fb_bpp fb' = fb_bpp fb"
  by (auto simp: framebuffer_update_def Let_def split: if_splits)
lemma draw_frame_effect:
  assumes "draw_frame st = Some st1"
  shows "m_img st1 = m_img st" "m_resized st1 = m_resized st" "m_scale st1 = m_scale st"
    "m_default_scale st1 = m_default_scale st" "m_prev_scale st1 = m_prev_scale st"
    "m_calls st1 = m_calls st @ [Clear_color, Draw_image ((fb_width (m_fb st) - img_width (m_resized st)) sdiv 2) ((fb_height (m_fb st) - img_height (m_resized st)) sdiv 2), Update]"
    "fb_width (m_fb st1) = fb_width (m_fb st)" "fb_height (m_fb st1) = fb_height (m_fb st)"
proof -
  from assms obtain fb1 fb2 fb3 where
    c: "framebuffer_clear_color (m_fb st) 0 0 0 = Some fb1"
    and d: "framebuffer_draw_image fb1 ((fb_width (m_fb st) - img_width (m_resized st)) sdiv 2) ((fb_height (m_fb st) - img_height (m_resized st)) sdiv 2) (m_resized st) = Some fb2"
    and u: "framebuffer_update fb2 = Some fb3"
    and st1: "st1 = st\<lparr>m_fb := fb3,
        m_calls := m_calls st @ [Clear_color, Draw_image ((fb_width (m_fb st) - img_width (m_resized st)) sdiv 2) ((fb_height (m_fb st) - img_height (m_resized st)) sdiv 2), Update]\<rparr>"
    by (auto simp: draw_frame_def Let_def split: option.splits)
  show "m_img st1 = m_img st" "m_resized st1 = m_resized st" "m_scale st1 = m_scale st"
    "m_default_scale st1 = m_default_scale st" "m_prev_scale st1 = m_prev_scale st"
    "m_calls st1 = m_calls st @ [Clear_color, Draw_image ((fb_width (m_fb st) - img_width (m_resized st)) sdiv 2) ((fb_height (m_fb st) - img_height (m_resized st)) sdiv 2), Update]"
    by (simp_all add: st1)
  show "fb_width (m_fb st1) = fb_width (m_fb st)" "fb_height (m_fb st1) = fb_height (m_fb st)"
    using clear_color_geometry [OF c] draw_image_geometry [OF d] update_geometry [OF u]
    by (simp_all add: st1)
qed

lemma handle_key_effect:
  assumes "handle_key env ch st = Some (Continue st')"
  shows "m_scale st' = clamp_scale (key_scale ch (m_default_scale st) (m_scale st))"
    "m_default_scale st' = m_default_scale st" "m_img st' = m_img st" "m_fb st' = m_fb st"
  using assms unfolding handle_key_def Let_def
  by (auto split: if_splits option.splits ptr.splits)

lemma main_loop_Nil_effect:
  "main_loop [] st = Some (Waiting st') \<Longrightarrow> draw_frame st = Some st'"
  by (auto split: option.splits)

lemma main_loop_Cons_effect:
  assumes "main_loop ((ch, env) # keys) st = Some (Waiting st')"
  shows "\<exists>st1 st2. draw_frame st = Some st1 \<and> handle_key env ch st1 = Some (Continue st2)
           \<and> main_loop keys st2 = Some (Waiting st')"
  using assms by (auto split: option.splits control.splits)
lemma main_loop_scale_invariant:
  assumes "main_loop keys st = Some (Waiting st')" "m_default_scale st \<noteq> NaN" "m_scale st \<noteq> NaN"
  shows "(keys \<noteq> [] \<longrightarrow> (\<exists>q. m_scale st' = Fin q \<and> 13421773 / 134217728 \<le> q \<and> q \<le> 5))
         \<and> (keys = [] \<longrightarrow> m_scale st' = m_scale st)"
  using assms
proof (induction keys arbitrary: st)
  case Nil
  then show ?case using draw_frame_effect(3) [OF main_loop_Nil_effect] by simp
next
  case (Cons k keys)
  obtain ch env where k: "k = (ch, env)" by (cases k)
  from Cons.prems(1) obtain st1 st2 where
    f: "draw_frame st = Some st1" and h: "handle_key env ch st1 = Some (Continue st2)"
    and l: "main_loop keys st2 = Some (Waiting st')"
    unfolding k using main_loop_Cons_effect by blast
  have d1: "m_default_scale st1 \<noteq> NaN" "m_scale st1 \<noteq> NaN"
    using draw_frame_effect [OF f] Cons.prems by simp_all
  have s2: "m_scale st2 = clamp_scale (key_scale ch (m_default_scale st1) (m_scale st1))"
    and d2: "m_default_scale st2 = m_default_scale st1"
    using handle_key_effect [OF h] by simp_all
  have "key_scale ch (m_default_scale st1) (m_scale st1) \<noteq> NaN"
    using d1 by (intro key_scale_not_NaN)
  from clamp_scale_range [OF this] obtain q where
    q: "m_scale st2 = Fin q" "13421773 / 134217728 \<le> q" "q \<le> 5" unfolding s2 by blast
  have "m_default_scale st2 \<noteq> NaN" "m_scale st2 \<noteq> NaN" using d1 d2 q by simp_all
  from Cons.IH [OF l this] q show ?case by (cases "keys = []") auto
qed

lemma main_loop_reset:
  assumes "main_loop (keys @ [(CHR ''r'', e)]) st = Some (Waiting st')"
  shows "m_scale st' = clamp_scale (m_default_scale st)"
  using assms
proof (induction keys arbitrary: st)
  case Nil
  then obtain st1 st2 where
    f: "draw_frame st = Some st1" and h: "handle_key e (CHR ''r'') st1 = Some (Continue st2)"
    and l: "main_loop [] st2 = Some (Waiting st')"
    using main_loop_Cons_effect by fastforce
  have "m_scale st' = m_scale st2" using draw_frame_effect(3) [OF main_loop_Nil_effect [OF l]] .
  also have "\<dots> = clamp_scale (m_default_scale st1)"
    using handle_key_effect(1) [OF h] by (simp add: key_scale_def)
  also have "\<dots> = clamp_scale (m_default_scale st)" using draw_frame_effect(4) [OF f] by simp
  finally show ?case .
next
  case (Cons k keys)
  obtain ch env where k: "k = (ch, env)" by (cases k)
  from Cons.prems obtain st1 st2 where
    f: "draw_frame st = Some st1" and h: "handle_key env ch st1 = Some (Continue st2)"
    and l: "main_loop (keys @ [(CHR ''r'', e)]) st2 = Some (Waiting st')"
    unfolding k using main_loop_Cons_effect by fastforce
  have "m_default_scale st2 = m_default_scale st"
    using handle_key_effect(2) [OF h] draw_frame_effect(4) [OF f] by simp
  with Cons.IH [OF l] show ?case by simp
qed

lemma main_init_effect:
  assumes "main_init env fb img = Some (Inr st)"
  shows "m_scale st = initial_scale fb img" "m_default_scale st = initial_scale fb img"
    "m_img st = img" "m_fb st = fb"
  using assms unfolding main_init_def Let_def
  by (auto split: option.splits ptr.splits)

lemma main_Waiting:
  assumes "main env keys fb img = Some (Inr (Waiting st'))"
  shows "\<exists>st. main_init env fb img = Some (Inr st) \<and> main_loop keys st = Some (Waiting st')"
  using assms unfolding main_def by (auto split: option.splits sum.splits)

subsection \<open>Runs on concrete inputs\<close>

lemma run_tiny:
  "main env_ok [(CHR ''+'', env_ok), (CHR ''r'', env_ok)] fb_1x1 img_9x9
     = Some (Inr (Waiting tiny_final))"
  by code_simp

lemma run_red:
  "main env_ok [(CHR ''+'', env_ok), (CHR ''r'', env_ok)] fb_2x2 red_pixel
     = Some (Inr (Waiting red_final))"
  by code_simp

subsection \<open>The scale stays within its bounds\<close>

text \<open>
  Claim C3, as the code has it. The scale is clamped at lines 124--125, after a key; the
  scale of the first frame, computed at lines 68--72, is not clamped. So: for an image of
  positive dimensions, whenever the loop waits for a key after at least one key has been
  handled, the scale is a finite value within \<open>[0.1, 5.0]\<close>.
\<close>

theorem scale_clamped_after_keys:
  assumes "0 < img_width img" "img_width img < 2 ^ 31"
    and "0 < img_height img" "img_height img < 2 ^ 31"
    and "keys \<noteq> []"
    and "main env keys fb img = Some (Inr (Waiting st))"
  shows "\<exists>q. m_scale st = Fin q \<and> 1 / 10 \<le> q \<and> q \<le> 5"
proof -
  from main_Waiting [OF assms(6)] obtain st0 where
    i: "main_init env fb img = Some (Inr st0)" and l: "main_loop keys st0 = Some (Waiting st)" by blast
  have "initial_scale fb img \<noteq> NaN" using assms(1-4) by (rule initial_scale_not_NaN)
  then have "m_default_scale st0 \<noteq> NaN" "m_scale st0 \<noteq> NaN" using main_init_effect [OF i] by simp_all
  from main_loop_scale_invariant [OF l this] assms(5) obtain q where
    "m_scale st = Fin q" "13421773 / 134217728 \<le> q" "q \<le> 5" by blast
  then show ?thesis by (intro exI [of _ q]) simp
qed

theorem scale_clamped_after_keys_witness:
  "main env_ok [(CHR ''+'', env_ok), (CHR ''r'', env_ok)] fb_1x1 img_9x9
     = Some (Inr (Waiting tiny_final))
   \<and> (\<exists>q. m_scale tiny_final = Fin q \<and> 1 / 10 \<le> q \<and> q \<le> 5)"
proof -
  have "0 < img_width img_9x9" "img_width img_9x9 < 2 ^ 31"
    "0 < img_height img_9x9" "img_height img_9x9 < 2 ^ 31"
    by (simp_all add: img_9x9_def)
  from scale_clamped_after_keys [OF this _ run_tiny] run_tiny show ?thesis by simp
qed

text \<open>
  The claim as stated fails at the first frame: on an 8 x 8 device the 1 x 1 image starts
  at the scale \<open>8 * 0.8 = 6.4\<close>, above \<open>5.0\<close>.
\<close>

theorem first_frame_scale_counterexample:
  "map_option m_scale (started (main_init env_ok fb_8x8 red_pixel)) = Some (Fin (13421773 / 2097152))
   \<and> f32_gt (Fin (13421773 / 2097152)) f32_5_0"
  by code_simp

subsection \<open>The key \<^verbatim>\<open>r\<close>\<close>

text \<open>
  Claim C4, as the code has it. After any keys, the key \<^verbatim>\<open>r\<close> sets the scale to the
  initial scale clamped by lines 124--125; that is the initial scale itself when it lies
  within \<open>[0.1f, 5.0f]\<close>. (A run that ends in \<open>Waiting\<close> has met no \<^verbatim>\<open>q\<close>; its keys before
  \<^verbatim>\<open>r\<close> may be \<^verbatim>\<open>+\<close>, \<^verbatim>\<open>-\<close> or any other.)
\<close>

theorem reset_restores_clamped_base:
  assumes "main env (keys @ [(CHR ''r'', e)]) fb img = Some (Inr (Waiting st))"
  shows "m_scale st = clamp_scale (initial_scale fb img)
         \<and> (\<not> f32_lt (initial_scale fb img) f32_0_1 \<and> \<not> f32_gt (initial_scale fb img) f32_5_0
              \<longrightarrow> m_scale st = initial_scale fb img)"
proof -
  from main_Waiting [OF assms] obtain st0 where
    i: "main_init env fb img = Some (Inr st0)"
    and l: "main_loop (keys @ [(CHR ''r'', e)]) st0 = Some (Waiting st)" by blast
  have "m_scale st = clamp_scale (initial_scale fb img)"
    using main_loop_reset [OF l] main_init_effect(2) [OF i] by simp
  then show ?thesis by (simp add: clamp_scale_def Let_def)
qed

theorem reset_restores_clamped_base_witness:
  "\<not> f32_lt (initial_scale fb_2x2 red_pixel) f32_0_1
   \<and> \<not> f32_gt (initial_scale fb_2x2 red_pixel) f32_5_0
   \<and> m_scale red_final = initial_scale fb_2x2 red_pixel"
proof -
  have "\<not> f32_lt (initial_scale fb_2x2 red_pixel) f32_0_1"
    "\<not> f32_gt (initial_scale fb_2x2 red_pixel) f32_5_0"
    by code_simp+
  moreover have "main env_ok ([(CHR ''+'', env_ok)] @ [(CHR ''r'', env_ok)]) fb_2x2 red_pixel
      = Some (Inr (Waiting red_final))"
    using run_red by simp
  from reset_restores_clamped_base [OF this]
  have "\<not> f32_lt (initial_scale fb_2x2 red_pixel) f32_0_1
          \<and> \<not> f32_gt (initial_scale fb_2x2 red_pixel) f32_5_0
        \<longrightarrow> m_scale red_final = initial_scale fb_2x2 red_pixel" ..
  ultimately show ?thesis by blast
qed

text \<open>
  The claim as stated fails when the initial scale is out of bounds: for the 9 x 9 image on
  a 1 x 1 device it is about \<open>0.089\<close>, and after \<^verbatim>\<open>+\<close> and \<^verbatim>\<open>r\<close> the scale is \<open>0.1f\<close>.
\<close>

theorem reset_counterexample:
  "map_option m_scale (final_state
      (main env_ok [(CHR ''+'', env_ok), (CHR ''r'', env_ok)] fb_1x1 img_9x9)) = Some f32_0_1
   \<and> map_option m_scale (started (main_init env_ok fb_1x1 img_9x9))
       = Some (Fin (11930465 / 134217728))
   \<and> f32_0_1 \<noteq> Fin (11930465 / 134217728)"
proof -
  have "map_option m_scale (final_state (Some (Inr (Waiting tiny_final)))) = Some f32_0_1"
    by code_simp
  moreover have "map_option m_scale (started (main_init env_ok fb_1x1 img_9x9))
       = Some (Fin (11930465 / 134217728))"
    by code_simp
  moreover have "f32_0_1 \<noteq> Fin (11930465 / 134217728)"
    by code_simp
  ultimately show ?thesis unfolding run_tiny by blast
qed

subsection \<open>Target dimensions of a resample\<close>

text \<open>
  Claim C5, as the code has it. The clamp keeps the scale at \<open>0.1f\<close> or above, which
  keeps \<^verbatim>\<open>(int) (img->width * scale)\<close> positive only for an image of at least 10 pixels in
  that direction: for every image whose width and height lie between 10 and \<open>2\<^sup>2\<^sup>4\<close> and
  every scale that the clamp of lines 124--125 yields, both target dimensions are defined
  and positive.
\<close>

theorem clamped_target_positive:
  assumes "10 \<le> img_width img" "img_width img \<le> 2 ^ 24"
    and "10 \<le> img_height img" "img_height img \<le> 2 ^ 24"
    and "x \<noteq> NaN"
  shows "\<exists>w h. int_times_f32 (img_width img) (clamp_scale x) = Some w
             \<and> int_times_f32 (img_height img) (clamp_scale x) = Some h \<and> 0 < w \<and> 0 < h"
proof -
  from clamp_scale_range [OF assms(5)] obtain q where
    q: "clamp_scale x = Fin q" "13421773 / 134217728 \<le> q" "q \<le> 5" by blast
  from int_times_clamped [OF assms(1,2) q(2,3)] int_times_clamped [OF assms(3,4) q(2,3)]
  show ?thesis unfolding q(1) by blast
qed

theorem clamped_target_positive_witness:
  "10 \<le> img_width img_10x10 \<and> img_height img_10x10 \<le> 2 ^ 24
   \<and> (\<exists>w h. int_times_f32 (img_width img_10x10) (clamp_scale (Fin 0)) = Some w
             \<and> int_times_f32 (img_height img_10x10) (clamp_scale (Fin 0)) = Some h
             \<and> 0 < w \<and> 0 < h)"
proof -
  have "10 \<le> img_width img_10x10" "img_width img_10x10 \<le> 2 ^ 24"
    "10 \<le> img_height img_10x10" "img_height img_10x10 \<le> 2 ^ 24" "Fin 0 \<noteq> NaN"
    by (simp_all add: img_10x10_def)
  from clamped_target_positive [OF this] this(1,4) show ?thesis by blast
qed

text \<open>
  The claim as stated fails for a small image: with the 2 x 2 image on a 1 x 1 device, the
  key \<^verbatim>\<open>+\<close> leads to the scale \<open>0.48\<close>, within the bounds, and to a resample with
  the target dimensions \<open>0 x 0\<close>.
\<close>

theorem zero_target_counterexample:
  "map_option m_calls (final_state (main env_ok [(CHR ''+'', env_ok)] fb_1x1 img_2x2))
     = Some [Resize_linear 0 0, Clear_color, Draw_image 0 0, Update,
             Getchar CHR ''+'', Resize_linear 0 0, Free_resized,
             Clear_color, Draw_image 0 0, Update]
   \<and> map_option m_scale (final_state (main env_ok [(CHR ''+'', env_ok)] fb_1x1 img_2x2))
     = Some (Fin (1006633 / 2097152))
   \<and> \<not> f32_lt (Fin (1006633 / 2097152)) f32_0_1
   \<and> int_times_f32 (img_width img_2x2) (Fin (1006633 / 2097152)) = Some 0"
  by code_simp

subsection \<open>A key that leaves the scale unchanged\<close>

lemma handle_key_unchanged:
  assumes "ch \<noteq> CHR ''q''"
    and "f32_eq (clamp_scale (key_scale ch (m_default_scale st) (m_scale st))) (m_prev_scale st)"
  shows "handle_key env ch st =
           Some (Continue (st\<lparr>m_calls := m_calls st @ [Getchar ch],
                              m_scale := clamp_scale (key_scale ch (m_default_scale st) (m_scale st))\<rparr>))"
  using assms by (simp add: handle_key_def Let_def)

text \<open>
  Claim C8, as the code has it. When the clamped scale equals the scale of the previous
  frame, the \<^verbatim>\<open>continue\<close> of line 127 skips the resample and keeps the resized image, and
  control goes to the head of the loop: the unchanged image is cleared, drawn and flushed
  once more before \<^verbatim>\<open>getchar\<close> is called again. From the head of an iteration to the next
  wait, the calls are: the frame, the key, the frame.
\<close>

theorem unchanged_scale_redraws_without_resample:
  assumes "ch \<noteq> CHR ''q''"
    and "f32_eq (clamp_scale (key_scale ch (m_default_scale st) (m_scale st))) (m_prev_scale st)"
    and "main_loop [(ch, env)] st = Some (Waiting st')"
  shows "m_resized st' = m_resized st
         \<and> m_calls st' = m_calls st @
             [Clear_color,
              Draw_image ((fb_width (m_fb st) - img_width (m_resized st)) sdiv 2)
                         ((fb_height (m_fb st) - img_height (m_resized st)) sdiv 2),
              Update,
              Getchar ch,
              Clear_color,
              Draw_image ((fb_width (m_fb st) - img_width (m_resized st)) sdiv 2)
                         ((fb_height (m_fb st) - img_height (m_resized st)) sdiv 2),
              Update]"
proof -
  from main_loop_Cons_effect [OF assms(3)] obtain st1 st2 where
    f1: "draw_frame st = Some st1" and h: "handle_key env ch st1 = Some (Continue st2)"
    and l: "main_loop [] st2 = Some (Waiting st')" by blast
  have f2: "draw_frame st2 = Some st'" using l by (rule main_loop_Nil_effect)
  note e1 = draw_frame_effect [OF f1]
  note e2 = draw_frame_effect [OF f2]
  have "f32_eq (clamp_scale (key_scale ch (m_default_scale st1) (m_scale st1))) (m_prev_scale st1)"
    using assms(2) e1 by simp
  from handle_key_unchanged [OF assms(1) this, of env] h
  have st2: "st2 = st1\<lparr>m_calls := m_calls st1 @ [Getchar ch],
      m_scale := clamp_scale (key_scale ch (m_default_scale st1) (m_scale st1))\<rparr>" by simp
  have "m_resized st2 = m_resized st" "m_fb st2 = m_fb st1"
    "m_calls st2 = m_calls st1 @ [Getchar ch]"
    using e1 by (simp_all add: st2)
  with e1 e2 show ?thesis by simp
qed

lemma run_idle: "main_loop [(CHR ''x'', env_ok)] red_start = Some (Waiting red_idle)"
  by code_simp

theorem unchanged_scale_redraws_without_resample_witness:
  "main_loop [(CHR ''x'', env_ok)] red_start = Some (Waiting red_idle)
   \<and> m_resized red_idle = m_resized red_start
   \<and> m_calls red_idle = m_calls red_start @
        [Clear_color, Draw_image 0 0, Update, Getchar CHR ''x'', Clear_color, Draw_image 0 0, Update]"
proof -
  have k: "CHR ''x'' \<noteq> CHR ''q''" by simp
  have e: "f32_eq (clamp_scale (key_scale (CHR ''x'') (m_default_scale red_start) (m_scale red_start)))
             (m_prev_scale red_start)"
    by code_simp
  have p: "(fb_width (m_fb red_start) - img_width (m_resized red_start)) sdiv 2 = 0"
    "(fb_height (m_fb red_start) - img_height (m_resized red_start)) sdiv 2 = 0"
    by code_simp+
  from unchanged_scale_redraws_without_resample [OF k e run_idle] run_idle
  show ?thesis unfolding p by blast
qed

text \<open>
  The claim as stated, that the loop goes straight back to waiting without a redraw, fails:
  after the unrecognised key \<^verbatim>\<open>x\<close> the log shows a second clear, draw and flush.
\<close>

theorem redraw_counterexample:
  "map_option m_calls (final_state (main env_ok [(CHR ''x'', env_ok)] fb_2x2 red_pixel))
     = Some [Resize_linear 1 1, Clear_color, Draw_image 0 0, Update,
             Getchar CHR ''x'', Clear_color, Draw_image 0 0, Update]"
  by code_simp

subsection \<open>A resample that fails\<close>

text \<open>
  Claim C9. When the scale has changed and \<^verbatim>\<open>Image_resize_linear\<close> returns \<^verbatim>\<open>NULL\<close>, the
  iteration ends with the resized image of before, which is not freed (the log gains the
  key and the resize call, and no \<open>Free_resized\<close>), and the loop goes on with the remaining
  keys from that state; the next frame draws the kept image, and a later key that changes
  the scale resamples again.
\<close>

theorem failed_resample_keeps_image:
  assumes "ch \<noteq> CHR ''q''"
    and "draw_frame st = Some st1"
    and "scale = clamp_scale (key_scale ch (m_default_scale st) (m_scale st))"
    and "\<not> f32_eq scale (m_prev_scale st)"
    and "int_times_f32 (img_width (m_img st)) scale = Some w"
    and "int_times_f32 (img_height (m_img st)) scale = Some h"
    and "Image_resize_linear env (m_img st) w h = Some Null"
  shows "\<exists>st2. handle_key env ch st1 = Some (Continue st2)
           \<and> m_resized st2 = m_resized st
           \<and> m_calls st2 = m_calls st1 @ [Getchar ch, Resize_linear w h]
           \<and> main_loop ((ch, env) # keys) st = main_loop keys st2"
proof -
  note e1 = draw_frame_effect [OF assms(2)]
  define st2 where "st2 = st1\<lparr>m_scale := scale, m_prev_scale := scale,
      m_calls := m_calls st1 @ [Getchar ch, Resize_linear w h]\<rparr>"
  have "handle_key env ch st1 = Some (Continue st2)"
    using assms(1,3-7) e1 by (simp add: handle_key_def Let_def st2_def)
  moreover have "m_resized st2 = m_resized st" using e1 by (simp add: st2_def)
  moreover have "m_calls st2 = m_calls st1 @ [Getchar ch, Resize_linear w h]" by (simp add: st2_def)
  ultimately show ?thesis using assms(2) by (intro exI [of _ st2]) simp
qed

theorem failed_resample_keeps_image_witness:
  "Image_resize_linear env_fail (m_img red_start) 1 1 = Some Null
   \<and> (\<exists>st2. handle_key env_fail (CHR ''+'') red_drawn = Some (Continue st2)
           \<and> m_resized st2 = m_resized red_start
           \<and> m_calls st2 = m_calls red_drawn @ [Getchar (CHR ''+''), Resize_linear 1 1]
           \<and> main_loop [(CHR ''+'', env_fail)] red_start = main_loop [] st2)"
proof -
  have k: "CHR ''+'' \<noteq> CHR ''q''" by simp
  have d: "draw_frame red_start = Some red_drawn" by code_simp
  have s: "Fin (1006633 / 524288)
             = clamp_scale (key_scale (CHR ''+'') (m_default_scale red_start) (m_scale red_start))"
    by code_simp
  have n: "\<not> f32_eq (Fin (1006633 / 524288)) (m_prev_scale red_start)" by code_simp
  have w: "int_times_f32 (img_width (m_img red_start)) (Fin (1006633 / 524288)) = Some 1"
    "int_times_f32 (img_height (m_img red_start)) (Fin (1006633 / 524288)) = Some 1"
    by code_simp+
  have r: "Image_resize_linear env_fail (m_img red_start) 1 1 = Some Null" by code_simp
  from failed_resample_keeps_image [OF k d s n w r, of "[]"] r show ?thesis by blast
qed

section \<open>Properties of the resampler\<close>

subsection \<open>32-bit values\<close>

lemma int32_id: "- (2 ^ 31) \<le> i \<Longrightarrow> i < 2 ^ 31 \<Longrightarrow> int32 i = i"
  by (simp add: int32_def)

lemma int32_nonneg_id: "0 \<le> i \<Longrightarrow> i < 2 ^ 31 \<Longrightarrow> int32 i = i"
  by (simp add: int32_def)

lemma int32_range: "- (2 ^ 31) \<le> int32 i" "int32 i < 2 ^ 31"
proof -
  have "0 \<le> (i + 2 ^ 31) mod 2 ^ 32" "(i + 2 ^ 31) mod 2 ^ 32 < (2 ^ 32 :: int)" by simp_all
  then show "- (2 ^ 31) \<le> int32 i" "int32 i < 2 ^ 31" by (simp_all add: int32_def)
qed

subsection \<open>The loops keep the size of the destination block\<close>

lemma resize_channels_length:
  "resize_channels src src_index dst_index c dst = Some dst' \<Longrightarrow> length dst' = length dst"
proof (induction src src_index dst_index c dst rule: resize_channels.induct)
  case (1 src src_index dst_index c dst)
  show ?case
  proof (cases "c < img_bpp src")
    case True
    with "1.prems" obtain v dst1 where
      v: "load (img_data src) (int32 (src_index + c)) = Some v"
      and s: "store dst (int32 (dst_index + c)) v = Some dst1"
      and r: "resize_channels src src_index dst_index (c + 1) dst1 = Some dst'"
      by (subst (asm) resize_channels.simps) (auto split: option.splits)
    from "1.IH" [OF True v s r] store_length [OF s] show ?thesis by simp
  next
    case False
    with "1.prems" show ?thesis by (subst (asm) resize_channels.simps) simp
  qed
qed

lemma resize_row_length:
  "resize_row src resized x_ratio y_ratio new_width y x dst = Some dst' \<Longrightarrow> length dst' = length dst"
proof (induction src resized x_ratio y_ratio new_width y x dst rule: resize_row.induct)
  case (1 src resized x_ratio y_ratio new_width y x dst)
  show ?case
  proof (cases "x < new_width")
    case True
    with "1.prems" obtain src_x src_y dst1 where
      sx: "int_times_f32 x x_ratio = Some src_x" and sy: "int_times_f32 y y_ratio = Some src_y"
      and c: "resize_channels src
                (int32 (int32 (src_y * img_stride src) + int32 (src_x * img_bpp src)))
                (int32 (int32 (y * img_stride resized) + int32 (x * img_bpp resized))) 0 dst
              = Some dst1"
      and r: "resize_row src resized x_ratio y_ratio new_width y (x + 1) dst1 = Some dst'"
      by (subst (asm) resize_row.simps) (auto simp: Let_def split: option.splits)
    from "1.IH" [OF True sx sy refl refl c r] resize_channels_length [OF c] show ?thesis by simp
  next
    case False
    with "1.prems" show ?thesis by (subst (asm) resize_row.simps) simp
  qed
qed


text \<open>A loop that returns has made every one of its writes within the destination block.\<close>

lemma resize_channels_writes:
  assumes "resize_channels src src_index dst_index c dst = Some dst'"
    and "c \<le> k" "k < img_bpp src"
  shows "0 \<le> int32 (dst_index + k) \<and> int32 (dst_index + k) < int (length dst)"
  using assms
proof (induction src src_index dst_index c dst rule: resize_channels.induct)
  case (1 src src_index dst_index c dst)
  from "1.prems"(2,3) have True: "c < img_bpp src" by linarith
  with "1.prems"(1) obtain v dst1 where
    v: "load (img_data src) (int32 (src_index + c)) = Some v"
    and s: "store dst (int32 (dst_index + c)) v = Some dst1"
    and r: "resize_channels src src_index dst_index (c + 1) dst1 = Some dst'"
    by (subst (asm) resize_channels.simps) (auto split: option.splits)
  show ?case
  proof (cases "k = c")
    case True
    from s show ?thesis unfolding True by (auto simp: store_def split: if_splits)
  next
    case False
    with "1.prems"(2) have "c + 1 \<le> k" by simp
    from "1.IH" [OF True v s r this "1.prems"(3)] store_length [OF s] show ?thesis by simp
  qed
qed

lemma resize_row_writes:
  assumes "resize_row src resized x_ratio y_ratio new_width y x dst = Some dst'"
    and "x \<le> x'" "x' < new_width" "0 \<le> k" "k < img_bpp src"
  shows "0 \<le> int32 (int32 (int32 (y * img_stride resized) + int32 (x' * img_bpp resized)) + k)
         \<and> int32 (int32 (int32 (y * img_stride resized) + int32 (x' * img_bpp resized)) + k)
             < int (length dst)"
  using assms
proof (induction src resized x_ratio y_ratio new_width y x dst rule: resize_row.induct)
  case (1 src resized x_ratio y_ratio new_width y x dst)
  from "1.prems"(2,3) have True: "x < new_width" by linarith
  with "1.prems"(1) obtain src_x src_y dst1 where
    sx: "int_times_f32 x x_ratio = Some src_x" and sy: "int_times_f32 y y_ratio = Some src_y"
    and c: "resize_channels src
              (int32 (int32 (src_y * img_stride src) + int32 (src_x * img_bpp src)))
              (int32 (int32 (y * img_stride resized) + int32 (x * img_bpp resized))) 0 dst
            = Some dst1"
    and r: "resize_row src resized x_ratio y_ratio new_width y (x + 1) dst1 = Some dst'"
    by (subst (asm) resize_row.simps) (auto simp: Let_def split: option.splits)
  show ?case
  proof (cases "x' = x")
    case True
    from resize_channels_writes [OF c "1.prems"(4,5)] show ?thesis unfolding True .
  next
    case False
    with "1.prems"(2) have "x + 1 \<le> x'" by simp
    from "1.IH" [OF True sx sy refl refl c r this "1.prems"(3,4,5)] resize_channels_length [OF c]
    show ?thesis by simp
  qed
qed

lemma resize_rows_writes:
  assumes "resize_rows src resized x_ratio y_ratio new_width new_height y dst = Some dst'"
    and "y \<le> y'" "y' < new_height" "0 \<le> x'" "x' < new_width" "0 \<le> k" "k < img_bpp src"
  shows "0 \<le> int32 (int32 (int32 (y' * img_stride resized) + int32 (x' * img_bpp resized)) + k)
         \<and> int32 (int32 (int32 (y' * img_stride resized) + int32 (x' * img_bpp resized)) + k)
             < int (length dst)"
  using assms
proof (induction src resized x_ratio y_ratio new_width new_height y dst rule: resize_rows.induct)
  case (1 src resized x_ratio y_ratio new_width new_height y dst)
  from "1.prems"(2,3) have True: "y < new_height" by linarith
  with "1.prems"(1) obtain dst1 where
    c: "resize_row src resized x_ratio y_ratio new_width y 0 dst = Some dst1"
    and r: "resize_rows src resized x_ratio y_ratio new_width new_height (y + 1) dst1 = Some dst'"
    by (subst (asm) resize_rows.simps) (auto split: option.splits)
  show ?case
  proof (cases "y' = y")
    case True
    from resize_row_writes [OF c "1.prems"(4,5,6,7)] show ?thesis unfolding True .
  next
    case False
    with "1.prems"(2) have "y + 1 \<le> y'" by simp
    from "1.IH" [OF True c r this "1.prems"(3-7)] resize_row_length [OF c]
    show ?thesis by simp
  qed
qed

subsection \<open>Returned images\<close>

lemma resize_success:
  assumes "Image_resize_linear env src new_width new_height = Some (Ptr resized)"
  shows "\<exists>content block.
           env_struct env \<and> env_data env = Some content
           \<and> 0 \<le> int32 (new_height * int32 (new_width * img_bpp src))
           \<and> resize_rows src
                \<lparr>img_width = new_width, img_height = new_height, img_bpp = img_bpp src,
                 img_stride = int32 (new_width * img_bpp src),
                 img_data = map content
                   [0 ..< nat (int32 (new_height * int32 (new_width * img_bpp src)))]\<rparr>
                (f32_div (f32_of_int (img_width src)) (f32_of_int new_width))
                (f32_div (f32_of_int (img_height src)) (f32_of_int new_height))
                new_width new_height 0
                (map content [0 ..< nat (int32 (new_height * int32 (new_width * img_bpp src)))])
               = Some block
           \<and> resized = \<lparr>img_width = new_width, img_height = new_height, img_bpp = img_bpp src,
                 img_stride = int32 (new_width * img_bpp src), img_data = block\<rparr>"
  using assms unfolding Image_resize_linear_def Let_def malloc_bytes_def
  by (auto split: if_splits option.splits ptr.splits)

text \<open>
  When the true size \<open>new_height * new_width * bpp\<close> does not fit 32 bits, the block
  allocated is smaller than the image, and the loops reach its end: the byte at the offset
  equal to the size of the block belongs to a pixel whose index is computed without
  wrap-around. So a call that returns an image has a size that fits.
\<close>

lemma resize_size_fits:
  assumes r: "Image_resize_linear env src new_width new_height = Some (Ptr resized)"
    and b: "0 < img_bpp src" and w: "0 < new_width" and h: "0 < new_height"
  shows "new_height * (new_width * img_bpp src) < 2 ^ 31"
proof (rule ccontr)
  assume "\<not> new_height * (new_width * img_bpp src) < 2 ^ 31"
  then have big: "2 ^ 31 \<le> new_height * (new_width * img_bpp src)" by simp
  let ?b = "img_bpp src"
  define stride where "stride = int32 (new_width * ?b)"
  define size where "size = int32 (new_height * stride)"
  from resize_success [OF r] obtain content block where
    s0: "0 \<le> size"
    and rows: "resize_rows src
                \<lparr>img_width = new_width, img_height = new_height, img_bpp = ?b,
                 img_stride = stride, img_data = map content [0 ..< nat size]\<rparr>
                (f32_div (f32_of_int (img_width src)) (f32_of_int new_width))
                (f32_div (f32_of_int (img_height src)) (f32_of_int new_height))
                new_width new_height 0 (map content [0 ..< nat size]) = Some block"
    unfolding stride_def size_def by blast
  have s1: "size < 2 ^ 31" unfolding size_def by (rule int32_range)
  have len: "int (length (map content [0 ..< nat size])) = size" using s0 by simp
  define p where "p = size div ?b"
  define k where "k = size mod ?b"
  have k: "0 \<le> k" "k < ?b" using b by (simp_all add: k_def)
  have pk: "p * ?b + k = size" unfolding p_def k_def by (rule div_mult_mod_eq)
  have p0: "0 \<le> p" using s0 b by (simp add: p_def pos_imp_zdiv_nonneg_iff)
  have pb: "p * ?b \<le> size" using pk k(1) by linarith
  have "\<exists>x y. 0 \<le> y \<and> y < new_height \<and> 0 \<le> x \<and> x < new_width
           \<and> int32 (y * stride) + int32 (x * ?b) = p * ?b"
  proof (cases "new_width * ?b < 2 ^ 31")
    case True
    have "0 \<le> new_width * ?b" using w b by simp
    then have st: "stride = new_width * ?b" unfolding stride_def using True by (intro int32_nonneg_id)
    define y where "y = p div new_width"
    define x where "x = p mod new_width"
    have x: "0 \<le> x" "x < new_width" using w by (simp_all add: x_def)
    have y0: "0 \<le> y" using p0 w by (simp add: y_def pos_imp_zdiv_nonneg_iff)
    have yx: "y * new_width + x = p" unfolding y_def x_def by (rule div_mult_mod_eq)
    have "size < new_height * new_width * ?b" using s1 big by (simp add: mult.assoc)
    then have "p < new_height * new_width" unfolding p_def using b by (intro div_less_bound)
    then have y1: "y < new_height" unfolding y_def using w by (intro div_less_bound)
    have e: "y * (new_width * ?b) + x * ?b = p * ?b"
      using yx by (simp add: algebra_simps flip: yx)
    have n1: "0 \<le> y * (new_width * ?b)" using y0 w b by simp
    have n2: "0 \<le> x * ?b" using x(1) b by simp
    have "int32 (y * stride) = y * (new_width * ?b)"
      unfolding st using n1 n2 e pb s1 by (intro int32_nonneg_id) linarith+
    moreover have "int32 (x * ?b) = x * ?b"
      using n1 n2 e pb s1 by (intro int32_nonneg_id) linarith+
    ultimately have "int32 (y * stride) + int32 (x * ?b) = p * ?b" using e by simp
    with x y0 y1 show ?thesis by blast
  next
    case False
    then have "size < new_width * ?b" using s1 by linarith
    then have p1: "p < new_width" unfolding p_def using b by (intro div_less_bound)
    have "int32 (p * ?b) = p * ?b" using p0 b pb s1 by (intro int32_nonneg_id) auto
    moreover have "int32 (0 * stride) = 0" by (simp add: int32_def)
    ultimately have "int32 (0 * stride) + int32 (p * ?b) = p * ?b" by simp
    with p0 p1 h show ?thesis by blast
  qed
  then obtain x y where xy: "0 \<le> y" "y < new_height" "0 \<le> x" "x < new_width"
    and d: "int32 (y * stride) + int32 (x * ?b) = p * ?b" by blast
  have "0 \<le> p * ?b" using p0 b by simp
  then have d1: "int32 (int32 (y * stride) + int32 (x * ?b)) = p * ?b"
    unfolding d using pb s1 by (intro int32_nonneg_id) linarith+
  have d2: "int32 (p * ?b + k) = size" unfolding pk using s0 s1 by (rule int32_nonneg_id)
  from resize_rows_writes [OF rows _ xy(2,3,4) k] xy(1)
  have "int32 (int32 (int32 (y * stride) + int32 (x * ?b)) + k) < size"
    using len by simp
  then show False unfolding d1 d2 by simp
qed



subsection \<open>Sizes beyond 32 bits\<close>

text \<open>
  A size that wraps to a negative number makes the allocation fail, and the function
  returns \<^verbatim>\<open>NULL\<close>; a size that wraps to a non-negative number gives a block that the
  loops leave, and the call has no defined result.
\<close>

lemma resize_negative_size:
  assumes "env_struct env" "int32 (new_height * int32 (new_width * img_bpp src)) < 0"
  shows "Image_resize_linear env src new_width new_height = Some Null"
  using assms unfolding Image_resize_linear_def Let_def malloc_bytes_def
  by (simp split: option.splits)

lemma resize_wrapped_size:
  assumes "env_struct env" "env_data env = Some content"
    and "0 < img_bpp src" "0 < new_width" "0 < new_height"
    and "2 ^ 31 \<le> new_height * (new_width * img_bpp src)"
    and "0 \<le> int32 (new_height * int32 (new_width * img_bpp src))"
  shows "Image_resize_linear env src new_width new_height = None"
proof (cases "Image_resize_linear env src new_width new_height")
  case None
  then show ?thesis .
next
  case (Some p)
  show ?thesis
  proof (cases p)
    case Null
    with Some assms(1,2,7) show ?thesis
      unfolding Image_resize_linear_def Let_def malloc_bytes_def
      by (simp split: option.splits)
  next
    case (Ptr resized)
    with Some have "Image_resize_linear env src new_width new_height = Some (Ptr resized)"
      by simp
    from resize_size_fits [OF this assms(3,4,5)] assms(6) show ?thesis by simp
  qed
qed

lemma resize_30000: "Image_resize_linear env_ok red_pixel 30000 30000 = Some Null"
  by (rule resize_negative_size) (simp_all add: env_ok_def red_pixel_def int32_def)

lemma resize_65540: "Image_resize_linear env_ok red_pixel 65540 65540 = None"
  by (rule resize_wrapped_size [where content = "\<lambda>i. 0"])
    (simp_all add: env_ok_def red_pixel_def int32_def)

text \<open>
  \<^verbatim>\<open>main\<close> reaches such a size: at the scale 5.0 an image of 8000 pixels gives a target of
  40000 pixels in each direction, whose size wraps to 505032704.
\<close>

lemma resize_40000:
  "int_times_f32 8000 f32_5_0 = Some 40000
   \<and> (img_bpp src = 3 \<longrightarrow> Image_resize_linear env_ok src 40000 40000 = None)"
proof -
  have "int_times_f32 8000 f32_5_0 = Some 40000" by code_simp
  moreover have "Image_resize_linear env_ok src 40000 40000 = None" if "img_bpp src = 3"
    by (rule resize_wrapped_size [where content = "\<lambda>i. 0"])
      (simp_all add: env_ok_def that int32_def)
  ultimately show ?thesis by simp
qed

subsection \<open>What the loops write\<close>

lemma resize_channels_total:
  assumes "\<forall>k. c \<le> k \<and> k < img_bpp src \<longrightarrow>
             0 \<le> src_index + k \<and> src_index + k < int (length (img_data src))"
    and "\<forall>k. c \<le> k \<and> k < img_bpp src \<longrightarrow>
             0 \<le> dst_index + k \<and> dst_index + k < int (length dst)"
    and "int (length (img_data src)) \<le> 2 ^ 31" "int (length dst) \<le> 2 ^ 31"
  shows "\<exists>dst'. resize_channels src src_index dst_index c dst = Some dst'
           \<and> length dst' = length dst
           \<and> (\<forall>i. load dst' i =
                 (if dst_index + c \<le> i \<and> i < dst_index + img_bpp src
                  then load (img_data src) (src_index + (i - dst_index)) else load dst i))"
  using assms
proof (induction src src_index dst_index c dst rule: resize_channels.induct)
  case (1 src src_index dst_index c dst)
  show ?case
  proof (cases "c < img_bpp src")
    case False
    then show ?thesis by (subst resize_channels.simps) auto
  next
    case True
    with "1.prems" have rs: "0 \<le> src_index + c \<and> src_index + c < int (length (img_data src))"
      and rd: "0 \<le> dst_index + c \<and> dst_index + c < int (length dst)" by auto
    have ws: "int32 (src_index + c) = src_index + c"
      using rs "1.prems"(3) by (intro int32_nonneg_id) linarith+
    have wd: "int32 (dst_index + c) = dst_index + c"
      using rd "1.prems"(4) by (intro int32_nonneg_id) linarith+
    from rs rd obtain v dst1 where v: "load (img_data src) (src_index + c) = Some v"
      and s: "store dst (dst_index + c) v = Some dst1"
      using load_Some_iff store_Some_iff by metis
    have v': "load (img_data src) (int32 (src_index + c)) = Some v" using v ws by simp
    have s': "store dst (int32 (dst_index + c)) v = Some dst1" using s wd by simp
    have l1: "length dst1 = length dst" using s by (rule store_length)
    have "\<exists>dst'. resize_channels src src_index dst_index (c + 1) dst1 = Some dst'
           \<and> length dst' = length dst1
           \<and> (\<forall>i. load dst' i =
                 (if dst_index + (c + 1) \<le> i \<and> i < dst_index + img_bpp src
                  then load (img_data src) (src_index + (i - dst_index)) else load dst1 i))"
      using "1.prems" l1 by (intro "1.IH" [OF True v' s']) auto
    then obtain dst' where r: "resize_channels src src_index dst_index (c + 1) dst1 = Some dst'"
      and l: "length dst' = length dst1"
      and c: "\<And>i. load dst' i =
                 (if dst_index + (c + 1) \<le> i \<and> i < dst_index + img_bpp src
                  then load (img_data src) (src_index + (i - dst_index)) else load dst1 i)"
      by blast
    have "resize_channels src src_index dst_index c dst = Some dst'"
      using True v' s' r by (subst resize_channels.simps) simp
    moreover have "\<And>i. load dst' i =
                 (if dst_index + c \<le> i \<and> i < dst_index + img_bpp src
                  then load (img_data src) (src_index + (i - dst_index)) else load dst i)"
      using True v by (auto simp: c load_store [OF s])
    ultimately show ?thesis using l l1 by simp
  qed
qed

lemma resize_row_total:
  assumes b: "img_bpp resized = img_bpp src" "0 < img_bpp src"
    and sy: "int_times_f32 y y_ratio = Some src_y" "0 \<le> src_y * img_stride src"
    and X: "\<forall>x'. x \<le> x' \<and> x' < new_width \<longrightarrow>
              (\<exists>sx. int_times_f32 x' x_ratio = Some sx \<and> 0 \<le> sx
                  \<and> src_y * img_stride src + sx * img_bpp src + img_bpp src
                       \<le> int (length (img_data src)))"
    and W: "0 \<le> y * img_stride resized" "0 \<le> x"
      "y * img_stride resized + new_width * img_bpp src \<le> int (length dst)"
    and L: "int (length (img_data src)) \<le> 2 ^ 31" "int (length dst) \<le> 2 ^ 31"
  shows "\<exists>dst'. resize_row src resized x_ratio y_ratio new_width y x dst = Some dst'
           \<and> length dst' = length dst
           \<and> (\<forall>i. i < y * img_stride resized + x * img_bpp src
                    \<or> y * img_stride resized + new_width * img_bpp src \<le> i
                  \<longrightarrow> load dst' i = load dst i)
           \<and> (\<forall>x' k sx. x \<le> x' \<and> x' < new_width \<and> 0 \<le> k \<and> k < img_bpp src
                    \<and> int_times_f32 x' x_ratio = Some sx
                  \<longrightarrow> load dst' (y * img_stride resized + x' * img_bpp src + k)
                        = load (img_data src) (src_y * img_stride src + sx * img_bpp src + k))"
  using assms
proof (induction src resized x_ratio y_ratio new_width y x dst rule: resize_row.induct)
  case (1 src resized x_ratio y_ratio new_width y x dst)
  let ?b = "img_bpp src"
  let ?D = "\<lambda>x. y * img_stride resized + x * ?b"
  show ?case
  proof (cases "x < new_width")
    case False
    then show ?thesis by (subst resize_row.simps) auto
  next
    case True
    from "1.prems"(5) True obtain sx where
      sx: "int_times_f32 x x_ratio = Some sx" and sx0: "0 \<le> sx"
      and r1: "src_y * img_stride src + sx * ?b + ?b \<le> int (length (img_data src))"
      by auto
    let ?S = "src_y * img_stride src + sx * ?b"
    have sxb: "0 \<le> sx * ?b" using sx0 "1.prems"(2) by simp
    have xb: "0 \<le> x * ?b" using "1.prems"(7,2) by simp
    have r0: "0 \<le> ?S" using "1.prems"(4) sxb by linarith
    have step: "?D (x + 1) = ?D x + ?b" by (simp add: algebra_simps)
    have "(x + 1) * ?b \<le> new_width * ?b" using True "1.prems"(2) by (intro mult_right_mono) auto
    then have xe: "x * ?b + ?b \<le> new_width * ?b" by (simp add: algebra_simps)
    then have w1: "?D x + ?b \<le> int (length dst)" using "1.prems"(8) by linarith
    have d0: "0 \<le> ?D x" using "1.prems"(6) xb by linarith
    have wS: "int32 (int32 (src_y * img_stride src) + int32 (sx * ?b)) = ?S"
    proof -
      have "int32 (src_y * img_stride src) = src_y * img_stride src"
        using "1.prems"(4,2,9) sxb r1 by (intro int32_nonneg_id) linarith+
      moreover have "int32 (sx * ?b) = sx * ?b"
        using "1.prems"(4,2,9) sxb r1 by (intro int32_nonneg_id) linarith+
      moreover have "int32 ?S = ?S" using r0 r1 "1.prems"(2,9) by (intro int32_nonneg_id) linarith+
      ultimately show ?thesis by simp
    qed
    have wD: "int32 (int32 (y * img_stride resized) + int32 (x * img_bpp resized)) = ?D x"
    proof -
      have "int32 (y * img_stride resized) = y * img_stride resized"
        using "1.prems"(6,2,10) xb w1 by (intro int32_nonneg_id) linarith+
      moreover have "int32 (x * ?b) = x * ?b"
        using "1.prems"(6,2,10) xb w1 by (intro int32_nonneg_id) linarith+
      moreover have "int32 (?D x) = ?D x" using d0 w1 "1.prems"(2,10) by (intro int32_nonneg_id) linarith+
      ultimately show ?thesis by (simp add: "1.prems"(1))
    qed
    have "\<exists>dst1. resize_channels src ?S (?D x) 0 dst = Some dst1
           \<and> length dst1 = length dst
           \<and> (\<forall>i. load dst1 i =
                 (if ?D x + 0 \<le> i \<and> i < ?D x + ?b
                  then load (img_data src) (?S + (i - ?D x)) else load dst i))"
      using r0 r1 w1 d0 "1.prems"(9,10) by (intro resize_channels_total) auto
    then obtain dst1 where
      c: "resize_channels src ?S (?D x) 0 dst = Some dst1"
      and l1: "length dst1 = length dst"
      and c1: "\<And>i. load dst1 i =
                 (if ?D x \<le> i \<and> i < ?D x + ?b
                  then load (img_data src) (?S + (i - ?D x)) else load dst i)"
      by auto
    have c': "resize_channels src (int32 (int32 (src_y * img_stride src) + int32 (sx * img_bpp src)))
                (int32 (int32 (y * img_stride resized) + int32 (x * img_bpp resized))) 0 dst
              = Some dst1"
      using c unfolding wS wD .
    have "\<exists>dst'. resize_row src resized x_ratio y_ratio new_width y (x + 1) dst1 = Some dst'
           \<and> length dst' = length dst1
           \<and> (\<forall>i. i < ?D (x + 1) \<or> ?D new_width \<le> i \<longrightarrow> load dst' i = load dst1 i)
           \<and> (\<forall>x' k sx. x + 1 \<le> x' \<and> x' < new_width \<and> 0 \<le> k \<and> k < ?b
                    \<and> int_times_f32 x' x_ratio = Some sx
                  \<longrightarrow> load dst' (?D x' + k)
                        = load (img_data src) (src_y * img_stride src + sx * ?b + k))"
    proof (rule "1.IH" [OF True sx "1.prems"(3) refl refl c' "1.prems"(1,2,3,4)])
      show "\<forall>x'. x + 1 \<le> x' \<and> x' < new_width \<longrightarrow>
              (\<exists>sx. int_times_f32 x' x_ratio = Some sx \<and> 0 \<le> sx
                  \<and> src_y * img_stride src + sx * ?b + ?b \<le> int (length (img_data src)))"
        using "1.prems"(5) by auto
      show "0 \<le> y * img_stride resized" by (rule "1.prems"(6))
      show "0 \<le> x + 1" using "1.prems"(7) by simp
      show "?D new_width \<le> int (length dst1)" using "1.prems"(8) l1 by simp
      show "int (length (img_data src)) \<le> 2 ^ 31" by (rule "1.prems"(9))
      show "int (length dst1) \<le> 2 ^ 31" using "1.prems"(10) l1 by simp
    qed
    then obtain dst' where
      r: "resize_row src resized x_ratio y_ratio new_width y (x + 1) dst1 = Some dst'"
      and l: "length dst' = length dst1"
      and fr: "\<And>i. i < ?D (x + 1) \<or> ?D new_width \<le> i \<Longrightarrow> load dst' i = load dst1 i"
      and px: "\<And>x' k sx. x + 1 \<le> x' \<Longrightarrow> x' < new_width \<Longrightarrow> 0 \<le> k \<Longrightarrow> k < ?b
                    \<Longrightarrow> int_times_f32 x' x_ratio = Some sx
                  \<Longrightarrow> load dst' (?D x' + k)
                        = load (img_data src) (src_y * img_stride src + sx * ?b + k)"
      by blast
    have res: "resize_row src resized x_ratio y_ratio new_width y x dst = Some dst'"
      using True sx "1.prems"(3) c' r by (subst resize_row.simps) (simp add: Let_def)
    have frame: "load dst' i = load dst i" if "i < ?D x \<or> ?D new_width \<le> i" for i
    proof -
      have "i < ?D (x + 1) \<or> ?D new_width \<le> i" using that "1.prems"(2) unfolding step by linarith
      then have "load dst' i = load dst1 i" by (rule fr)
      also have "\<dots> = load dst i" using that w1 xe by (auto simp: c1)
      finally show ?thesis .
    qed
    have pixel: "load dst' (?D x' + k) = load (img_data src) (src_y * img_stride src + sx' * ?b + k)"
      if "x \<le> x'" "x' < new_width" "0 \<le> k" "k < ?b" "int_times_f32 x' x_ratio = Some sx'"
      for x' k sx'
    proof (cases "x' = x")
      case False
      with that show ?thesis by (intro px) auto
    next
      case True
      with that sx have e: "sx' = sx" by simp
      have "?D x + k < ?D (x + 1)" using that(4) unfolding step by simp
      then have "load dst' (?D x + k) = load dst1 (?D x + k)" by (intro fr) simp
      also have "\<dots> = load (img_data src) (?S + k)" using that(3,4) by (simp add: c1)
      finally show ?thesis using True e by simp
    qed
    show ?thesis using res l l1 frame pixel by (intro exI [of _ dst']) simp
  qed
qed

lemma resize_rows_total:
  assumes b: "img_bpp resized = img_bpp src" "0 < img_bpp src"
    and st: "img_stride resized = new_width * img_bpp src" "0 \<le> new_width"
    and X: "\<forall>x. 0 \<le> x \<and> x < new_width \<longrightarrow>
              (\<exists>sx. int_times_f32 x x_ratio = Some sx \<and> 0 \<le> sx \<and> sx < img_width src)"
    and Y: "\<forall>y'. y \<le> y' \<and> y' < new_height \<longrightarrow>
              (\<exists>sy. int_times_f32 y' y_ratio = Some sy \<and> 0 \<le> sy \<and> sy < img_height src)"
    and src: "img_stride src = img_width src * img_bpp src" "0 \<le> img_width src"
      "int (length (img_data src)) = img_height src * img_stride src"
    and W: "0 \<le> y" "new_height * img_stride resized \<le> int (length dst)"
    and L: "int (length (img_data src)) \<le> 2 ^ 31" "int (length dst) \<le> 2 ^ 31"
  shows "\<exists>dst'. resize_rows src resized x_ratio y_ratio new_width new_height y dst = Some dst'
           \<and> length dst' = length dst
           \<and> (\<forall>i. i < y * img_stride resized \<or> new_height * img_stride resized \<le> i
                  \<longrightarrow> load dst' i = load dst i)
           \<and> (\<forall>x y' k sx sy. 0 \<le> x \<and> x < new_width \<and> y \<le> y' \<and> y' < new_height
                    \<and> 0 \<le> k \<and> k < img_bpp src
                    \<and> int_times_f32 x x_ratio = Some sx \<and> int_times_f32 y' y_ratio = Some sy
                  \<longrightarrow> load dst' (y' * img_stride resized + x * img_bpp src + k)
                        = load (img_data src) (sy * img_stride src + sx * img_bpp src + k))"
  using assms
proof (induction src resized x_ratio y_ratio new_width new_height y dst rule: resize_rows.induct)
  case (1 src resized x_ratio y_ratio new_width new_height y dst)
  let ?b = "img_bpp src"
  let ?rs = "img_stride resized"
  show ?case
  proof (cases "y < new_height")
    case False
    then show ?thesis by (subst resize_rows.simps) auto
  next
    case True
    have rs0: "0 \<le> ?rs" using "1.prems"(2,3,4) by simp
    have ss0: "0 \<le> img_stride src" using "1.prems"(2,7,8) by simp
    from "1.prems"(6) True obtain sy where
      sy: "int_times_f32 y y_ratio = Some sy" and sy0: "0 \<le> sy" and sy1: "sy < img_height src"
      by auto
    have sys: "0 \<le> sy * img_stride src" using sy0 ss0 by simp
    have yrs: "0 \<le> y * ?rs" using "1.prems"(10) rs0 by simp
    have "(y + 1) * ?rs \<le> new_height * ?rs" using True rs0 by (intro mult_right_mono) auto
    then have row_end: "y * ?rs + ?rs \<le> new_height * ?rs" by (simp add: algebra_simps)
    have "\<exists>dst1. resize_row src resized x_ratio y_ratio new_width y 0 dst = Some dst1
           \<and> length dst1 = length dst
           \<and> (\<forall>i. i < y * ?rs + 0 * ?b \<or> y * ?rs + new_width * ?b \<le> i
                  \<longrightarrow> load dst1 i = load dst i)
           \<and> (\<forall>x' k sx. 0 \<le> x' \<and> x' < new_width \<and> 0 \<le> k \<and> k < ?b
                    \<and> int_times_f32 x' x_ratio = Some sx
                  \<longrightarrow> load dst1 (y * ?rs + x' * ?b + k)
                        = load (img_data src) (sy * img_stride src + sx * ?b + k))"
    proof (rule resize_row_total [OF "1.prems"(1,2) sy sys])
      show "\<forall>x'. 0 \<le> x' \<and> x' < new_width \<longrightarrow>
              (\<exists>sx. int_times_f32 x' x_ratio = Some sx \<and> 0 \<le> sx
                  \<and> sy * img_stride src + sx * ?b + ?b \<le> int (length (img_data src)))"
      proof (intro allI impI)
        fix x' assume "0 \<le> x' \<and> x' < new_width"
        with "1.prems"(5) obtain sx where
          sx: "int_times_f32 x' x_ratio = Some sx" "0 \<le> sx" "sx < img_width src" by blast
        from pixel_in_range [OF sy0 sy1 sx(2,3), of ?b] "1.prems"(2)
        have "sy * img_stride src + sx * ?b + ?b \<le> int (length (img_data src))"
          by (simp_all add: "1.prems"(7,9))
        with sx(1,2) show "\<exists>sx. int_times_f32 x' x_ratio = Some sx \<and> 0 \<le> sx
                  \<and> sy * img_stride src + sx * ?b + ?b \<le> int (length (img_data src))"
          by blast
      qed
      show "0 \<le> y * ?rs" by (rule yrs)
      show "(0::int) \<le> 0" by simp
      show "y * ?rs + new_width * ?b \<le> int (length dst)"
        using row_end "1.prems"(11,3) by simp
      show "int (length (img_data src)) \<le> 2 ^ 31" by (rule "1.prems"(12))
      show "int (length dst) \<le> 2 ^ 31" by (rule "1.prems"(13))
    qed
    then obtain dst1 where
      c: "resize_row src resized x_ratio y_ratio new_width y 0 dst = Some dst1"
      and l1: "length dst1 = length dst"
      and fr0: "\<And>i. i < y * ?rs + 0 * ?b \<or> y * ?rs + new_width * ?b \<le> i
                  \<Longrightarrow> load dst1 i = load dst i"
      and px1: "\<And>x' k sx. 0 \<le> x' \<Longrightarrow> x' < new_width \<Longrightarrow> 0 \<le> k \<Longrightarrow> k < ?b
                    \<Longrightarrow> int_times_f32 x' x_ratio = Some sx
                  \<Longrightarrow> load dst1 (y * ?rs + x' * ?b + k)
                        = load (img_data src) (sy * img_stride src + sx * ?b + k)"
      by blast
    have fr1: "load dst1 i = load dst i" if "i < y * ?rs \<or> y * ?rs + ?rs \<le> i" for i
      using that "1.prems"(3) by (intro fr0) auto
    have "\<exists>dst'. resize_rows src resized x_ratio y_ratio new_width new_height (y + 1) dst1 = Some dst'
           \<and> length dst' = length dst1
           \<and> (\<forall>i. i < (y + 1) * ?rs \<or> new_height * ?rs \<le> i \<longrightarrow> load dst' i = load dst1 i)
           \<and> (\<forall>x y' k sx sy. 0 \<le> x \<and> x < new_width \<and> y + 1 \<le> y' \<and> y' < new_height
                    \<and> 0 \<le> k \<and> k < ?b
                    \<and> int_times_f32 x x_ratio = Some sx \<and> int_times_f32 y' y_ratio = Some sy
                  \<longrightarrow> load dst' (y' * ?rs + x * ?b + k)
                        = load (img_data src) (sy * img_stride src + sx * ?b + k))"
    proof (rule "1.IH" [OF True c "1.prems"(1,2,3,4,5) _ "1.prems"(7,8,9)])
      show "\<forall>y'. y + 1 \<le> y' \<and> y' < new_height \<longrightarrow>
              (\<exists>sy. int_times_f32 y' y_ratio = Some sy \<and> 0 \<le> sy \<and> sy < img_height src)"
        using "1.prems"(6) by auto
      show "0 \<le> y + 1" using "1.prems"(10) by simp
      show "new_height * ?rs \<le> int (length dst1)" using "1.prems"(11) l1 by simp
      show "int (length (img_data src)) \<le> 2 ^ 31" by (rule "1.prems"(12))
      show "int (length dst1) \<le> 2 ^ 31" using "1.prems"(13) l1 by simp
    qed
    then obtain dst' where
      r: "resize_rows src resized x_ratio y_ratio new_width new_height (y + 1) dst1 = Some dst'"
      and l: "length dst' = length dst1"
      and fr: "\<And>i. i < (y + 1) * ?rs \<or> new_height * ?rs \<le> i \<Longrightarrow> load dst' i = load dst1 i"
      and px: "\<And>x y' k sx sy. 0 \<le> x \<Longrightarrow> x < new_width \<Longrightarrow> y + 1 \<le> y' \<Longrightarrow> y' < new_height
                    \<Longrightarrow> 0 \<le> k \<Longrightarrow> k < ?b
                    \<Longrightarrow> int_times_f32 x x_ratio = Some sx \<Longrightarrow> int_times_f32 y' y_ratio = Some sy
                  \<Longrightarrow> load dst' (y' * ?rs + x * ?b + k)
                        = load (img_data src) (sy * img_stride src + sx * ?b + k)"
      by blast
    have step: "(y + 1) * ?rs = y * ?rs + ?rs" by (simp add: algebra_simps)
    have res: "resize_rows src resized x_ratio y_ratio new_width new_height y dst = Some dst'"
      using True c r by (subst resize_rows.simps) simp
    have frame: "load dst' i = load dst i" if "i < y * ?rs \<or> new_height * ?rs \<le> i" for i
    proof -
      have "load dst' i = load dst1 i" using that rs0 by (intro fr) (auto simp: step)
      also have "\<dots> = load dst i" using that row_end by (intro fr1) auto
      finally show ?thesis .
    qed
    have pixel: "load dst' (y' * ?rs + x * ?b + k)
                   = load (img_data src) (sy' * img_stride src + sx * ?b + k)"
      if "0 \<le> x" "x < new_width" "y \<le> y'" "y' < new_height" "0 \<le> k" "k < ?b"
        "int_times_f32 x x_ratio = Some sx" "int_times_f32 y' y_ratio = Some sy'"
      for x y' k sx sy'
    proof (cases "y' = y")
      case False
      with that show ?thesis by (intro px) auto
    next
      case True
      with that sy have e: "sy' = sy" by simp
      have "(x + 1) * ?b \<le> new_width * ?b" using that(1,2) "1.prems"(2) by (intro mult_right_mono) auto
      then have "x * ?b + k < ?rs" using that(6) "1.prems"(3) by (simp add: algebra_simps)
      then have "y * ?rs + x * ?b + k < (y + 1) * ?rs" unfolding step by simp
      then have "load dst' (y * ?rs + x * ?b + k) = load dst1 (y * ?rs + x * ?b + k)"
        by (intro fr) simp
      also have "\<dots> = load (img_data src) (sy * img_stride src + sx * ?b + k)"
        using that by (intro px1) auto
      finally show ?thesis using True e by simp
    qed
    show ?thesis using res l l1 frame pixel by (intro exI [of _ dst']) simp
  qed
qed

lemma resize_total:
  assumes src: "0 < img_bpp src" "img_stride src = img_width src * img_bpp src"
      "0 \<le> img_width src"
      "int (length (img_data src)) = img_height src * img_stride src"
      "int (length (img_data src)) < 2 ^ 31"
    and env: "env_struct env" "env_data env = Some content"
    and dims: "0 \<le> new_width" "0 \<le> new_height"
      "new_width * img_bpp src < 2 ^ 31" "new_height * (new_width * img_bpp src) < 2 ^ 31"
    and X: "\<forall>x. 0 \<le> x \<and> x < new_width \<longrightarrow>
              (\<exists>sx. int_times_f32 x (f32_div (f32_of_int (img_width src)) (f32_of_int new_width)) = Some sx
                 \<and> 0 \<le> sx \<and> sx < img_width src)"
    and Y: "\<forall>y. 0 \<le> y \<and> y < new_height \<longrightarrow>
              (\<exists>sy. int_times_f32 y (f32_div (f32_of_int (img_height src)) (f32_of_int new_height)) = Some sy
                 \<and> 0 \<le> sy \<and> sy < img_height src)"
  shows "\<exists>block. Image_resize_linear env src new_width new_height
             = Some (Ptr \<lparr>img_width = new_width, img_height = new_height, img_bpp = img_bpp src,
                          img_stride = new_width * img_bpp src, img_data = block\<rparr>)
           \<and> int (length block) = new_height * (new_width * img_bpp src)
           \<and> (\<forall>x y k sx sy. 0 \<le> x \<and> x < new_width \<and> 0 \<le> y \<and> y < new_height
                    \<and> 0 \<le> k \<and> k < img_bpp src
                    \<and> int_times_f32 x (f32_div (f32_of_int (img_width src)) (f32_of_int new_width)) = Some sx
                    \<and> int_times_f32 y (f32_div (f32_of_int (img_height src)) (f32_of_int new_height)) = Some sy
                  \<longrightarrow> load block (y * (new_width * img_bpp src) + x * img_bpp src + k)
                        = load (img_data src) (sy * img_stride src + sx * img_bpp src + k))"
proof -
  let ?b = "img_bpp src"
  let ?n = "new_height * (new_width * ?b)"
  let ?block = "map content [0 ..< nat ?n]"
  let ?resized = "\<lparr>img_width = new_width, img_height = new_height, img_bpp = ?b,
                    img_stride = new_width * ?b, img_data = ?block\<rparr>"
  let ?xr = "f32_div (f32_of_int (img_width src)) (f32_of_int new_width)"
  let ?yr = "f32_div (f32_of_int (img_height src)) (f32_of_int new_height)"
  have n0: "0 \<le> ?n" using dims src(1) by simp
  have s0: "0 \<le> new_width * ?b" using dims src(1) by simp
  have wst: "int32 (new_width * ?b) = new_width * ?b" using s0 dims(3) by (rule int32_nonneg_id)
  have wsz: "int32 ?n = ?n" using n0 dims(4) by (rule int32_nonneg_id)
  have m: "malloc_bytes (env_data env) ?n = Ptr ?block" using env(2) n0 by (simp add: malloc_bytes_def)
  have len: "int (length ?block) = ?n" using n0 by simp
  have "\<exists>dst'. resize_rows src ?resized ?xr ?yr new_width new_height 0 ?block = Some dst'
           \<and> length dst' = length ?block
           \<and> (\<forall>i. i < 0 * img_stride ?resized \<or> new_height * img_stride ?resized \<le> i
                  \<longrightarrow> load dst' i = load ?block i)
           \<and> (\<forall>x y' k sx sy. 0 \<le> x \<and> x < new_width \<and> 0 \<le> y' \<and> y' < new_height
                    \<and> 0 \<le> k \<and> k < ?b
                    \<and> int_times_f32 x ?xr = Some sx \<and> int_times_f32 y' ?yr = Some sy
                  \<longrightarrow> load dst' (y' * img_stride ?resized + x * ?b + k)
                        = load (img_data src) (sy * img_stride src + sx * ?b + k))"
    using src dims X Y len by (intro resize_rows_total) simp_all
  then obtain dst' where
    r: "resize_rows src ?resized ?xr ?yr new_width new_height 0 ?block = Some dst'"
    and l: "length dst' = length ?block"
    and px: "\<forall>x y' k sx sy. 0 \<le> x \<and> x < new_width \<and> 0 \<le> y' \<and> y' < new_height
                    \<and> 0 \<le> k \<and> k < ?b
                    \<and> int_times_f32 x ?xr = Some sx \<and> int_times_f32 y' ?yr = Some sy
                  \<longrightarrow> load dst' (y' * img_stride ?resized + x * ?b + k)
                        = load (img_data src) (sy * img_stride src + sx * ?b + k)"
    by blast
  have "Image_resize_linear env src new_width new_height = Some (Ptr (?resized\<lparr>img_data := dst'\<rparr>))"
    using env(1) m r by (simp add: Image_resize_linear_def Let_def wst wsz)
  moreover have "int (length dst') = ?n" using l len by simp
  ultimately show ?thesis using px by (intro exI [of _ dst']) simp
qed

subsection \<open>Source indices\<close>

text \<open>
  Claim C2, as the code has it. The ratios and the products of lines 316--322 are
  single-precision values, so the source pixel of the destination pixel \<open>(x, y)\<close> is
  \<open>((int) (x * x_ratio), (int) (y * y_ratio))\<close> with both roundings, which can be one less
  than \<open>floor (x * src.width / new_width)\<close>. For a well-formed source of at most \<open>2\<^sup>2\<^sup>4\<close> and a
  target of at most \<open>2\<^sup>2\<^sup>3\<close> pixels in each direction, the source block and the target block
  each of fewer than \<open>2\<^sup>3\<^sup>1\<close> bytes, with both allocations successful, the resize returns an
  image, these indices lie within \<open>[0, src.width - 1]\<close> and \<open>[0, src.height - 1]\<close>, the 32-bit
  index of line 323 is the index of that source pixel, each destination byte is the byte of
  that source pixel, and every read of the source block is in bounds.
\<close>

theorem resize_reads_in_bounds:
  assumes "wf_image src" "img_width src \<le> 2 ^ 24" "img_height src \<le> 2 ^ 24"
    and "img_height src * img_stride src < 2 ^ 31"
    and "0 < new_width" "new_width \<le> 2 ^ 23" "0 < new_height" "new_height \<le> 2 ^ 23"
    and "new_height * (new_width * img_bpp src) < 2 ^ 31"
    and "env_struct env" "env_data env = Some content"
    and "0 \<le> x" "x < new_width" "0 \<le> y" "y < new_height" "0 \<le> k" "k < img_bpp src"
  shows "\<exists>resized src_x src_y.
      Image_resize_linear env src new_width new_height = Some (Ptr resized)
      \<and> int_times_f32 x (f32_div (f32_of_int (img_width src)) (f32_of_int new_width)) = Some src_x
      \<and> int_times_f32 y (f32_div (f32_of_int (img_height src)) (f32_of_int new_height)) = Some src_y
      \<and> 0 \<le> src_x \<and> src_x \<le> img_width src - 1 \<and> 0 \<le> src_y \<and> src_y \<le> img_height src - 1
      \<and> int32 (int32 (int32 (src_y * img_stride src) + int32 (src_x * img_bpp src)) + k)
          = src_y * img_stride src + src_x * img_bpp src + k
      \<and> load (img_data resized) (y * img_stride resized + x * img_bpp resized + k)
          = load (img_data src) (src_y * img_stride src + src_x * img_bpp src + k)
      \<and> load (img_data src) (src_y * img_stride src + src_x * img_bpp src + k) \<noteq> None"
proof -
  let ?xr = "f32_div (f32_of_int (img_width src)) (f32_of_int new_width)"
  let ?yr = "f32_div (f32_of_int (img_height src)) (f32_of_int new_height)"
  let ?b = "img_bpp src"
  from assms(1) have wf: "0 < img_width src" "0 < img_height src" "0 < ?b"
    "img_stride src = img_width src * ?b"
    "int (length (img_data src)) = img_height src * img_stride src"
    by (simp_all add: wf_image_def)
  have w0: "0 \<le> img_width src" using wf(1) by simp
  have sl: "int (length (img_data src)) < 2 ^ 31" using assms(4) wf(5) by simp
  have X: "\<forall>x. 0 \<le> x \<and> x < new_width \<longrightarrow>
              (\<exists>sx. int_times_f32 x ?xr = Some sx \<and> 0 \<le> sx \<and> sx < img_width src)"
    using src_index_bound [OF wf(1) assms(2) assms(5,6)] by blast
  have Y: "\<forall>y. 0 \<le> y \<and> y < new_height \<longrightarrow>
              (\<exists>sy. int_times_f32 y ?yr = Some sy \<and> 0 \<le> sy \<and> sy < img_height src)"
    using src_index_bound [OF wf(2) assms(3) assms(7,8)] by blast
  from X assms(12,13) obtain sx where sx: "int_times_f32 x ?xr = Some sx" "0 \<le> sx" "sx < img_width src"
    by blast
  from Y assms(14,15) obtain sy where sy: "int_times_f32 y ?yr = Some sy" "0 \<le> sy" "sy < img_height src"
    by blast
  have nn: "0 \<le> new_width" "0 \<le> new_height" using assms(5,7) by simp_all
  have "1 * (new_width * ?b) \<le> new_height * (new_width * ?b)"
    using assms(5,7) wf(3) by (intro mult_right_mono) auto
  then have row: "new_width * ?b < 2 ^ 31" using assms(9) by linarith
  from resize_total [OF wf(3,4) w0 wf(5) sl assms(10,11) nn row assms(9) X Y] obtain block where
    r: "Image_resize_linear env src new_width new_height
          = Some (Ptr \<lparr>img_width = new_width, img_height = new_height, img_bpp = ?b,
                       img_stride = new_width * ?b, img_data = block\<rparr>)"
    and px: "\<And>x y k sx sy. 0 \<le> x \<Longrightarrow> x < new_width \<Longrightarrow> 0 \<le> y \<Longrightarrow> y < new_height
                    \<Longrightarrow> 0 \<le> k \<Longrightarrow> k < ?b
                    \<Longrightarrow> int_times_f32 x ?xr = Some sx \<Longrightarrow> int_times_f32 y ?yr = Some sy
                  \<Longrightarrow> load block (y * (new_width * ?b) + x * ?b + k)
                        = load (img_data src) (sy * img_stride src + sx * ?b + k)"
    by blast
  have l: "load block (y * (new_width * ?b) + x * ?b + k)
             = load (img_data src) (sy * img_stride src + sx * ?b + k)"
    using assms(12-17) sx(1) sy(1) by (intro px)
  from pixel_in_range [OF sy(2,3) sx(2,3), of ?b] wf(3)
  have rng: "0 \<le> sy * img_stride src + sx * ?b"
    "sy * img_stride src + sx * ?b + ?b \<le> int (length (img_data src))"
    by (simp_all add: wf(4,5))
  have i0: "0 \<le> sy * img_stride src + sx * ?b + k"
    and i1: "sy * img_stride src + sx * ?b + k < int (length (img_data src))"
    using rng assms(16,17) by simp_all
  then have ld: "load (img_data src) (sy * img_stride src + sx * ?b + k) \<noteq> None"
    by (simp add: load_def)
  have p1: "0 \<le> sy * img_stride src" using sy(2) wf(1,3,4) by simp
  have p2: "0 \<le> sx * ?b" using sx(2) wf(3) by simp
  have e1: "int32 (sy * img_stride src) = sy * img_stride src"
    using p1 p2 i1 sl assms(16) by (intro int32_nonneg_id) linarith+
  have e2: "int32 (sx * ?b) = sx * ?b"
    using p1 p2 i1 sl assms(16) by (intro int32_nonneg_id) linarith+
  have e3: "int32 (sy * img_stride src + sx * ?b) = sy * img_stride src + sx * ?b"
    using rng(1) i1 sl assms(16) by (intro int32_nonneg_id) linarith+
  have e4: "int32 (sy * img_stride src + sx * ?b + k) = sy * img_stride src + sx * ?b + k"
    using i0 i1 sl by (intro int32_nonneg_id) linarith+
  have wr: "int32 (int32 (int32 (sy * img_stride src) + int32 (sx * ?b)) + k)
              = sy * img_stride src + sx * ?b + k"
    by (simp only: e1 e2 e3 e4)
  from r l sx sy ld wr show ?thesis
    by (intro exI [of _ "\<lparr>img_width = new_width, img_height = new_height, img_bpp = ?b,
                       img_stride = new_width * ?b, img_data = block\<rparr>"] exI [of _ sx] exI [of _ sy]) simp
qed

theorem resize_reads_in_bounds_witness:
  "wf_image img_2x2
   \<and> (\<exists>resized src_x src_y.
        Image_resize_linear env_ok img_2x2 3 3 = Some (Ptr resized)
        \<and> int_times_f32 2 (f32_div (f32_of_int (img_width img_2x2)) (f32_of_int 3)) = Some src_x
        \<and> int_times_f32 2 (f32_div (f32_of_int (img_height img_2x2)) (f32_of_int 3)) = Some src_y
        \<and> 0 \<le> src_x \<and> src_x \<le> img_width img_2x2 - 1
        \<and> 0 \<le> src_y \<and> src_y \<le> img_height img_2x2 - 1
        \<and> int32 (int32 (int32 (src_y * img_stride img_2x2) + int32 (src_x * img_bpp img_2x2)) + 0)
            = src_y * img_stride img_2x2 + src_x * img_bpp img_2x2 + 0
        \<and> load (img_data resized) (2 * img_stride resized + 2 * img_bpp resized + 0)
            = load (img_data img_2x2) (src_y * img_stride img_2x2 + src_x * img_bpp img_2x2 + 0)
        \<and> load (img_data img_2x2) (src_y * img_stride img_2x2 + src_x * img_bpp img_2x2 + 0)
            \<noteq> None)"
proof -
  have w: "wf_image img_2x2" by (simp add: wf_image_def img_2x2_def)
  have d: "img_width img_2x2 \<le> 2 ^ 24" "img_height img_2x2 \<le> 2 ^ 24"
    "img_height img_2x2 * img_stride img_2x2 < 2 ^ 31" "(0::int) < 3"
    "(3::int) \<le> 2 ^ 23" "3 * (3 * img_bpp img_2x2) < 2 ^ 31"
    "env_struct env_ok" "env_data env_ok = Some (\<lambda>i. 0)"
    "(0::int) \<le> 2" "(2::int) < 3" "(0::int) \<le> 0" "0 < img_bpp img_2x2"
    by (simp_all add: img_2x2_def env_ok_def)
  from resize_reads_in_bounds [OF w d(1,2,3,4,5,4,5,6,7,8,9,10,9,10,11,12)] w show ?thesis by blast
qed

text \<open>
  The claim as stated fails twice. Resizing the row of 62 pixels to 14 pixels reads, for the
  destination pixel 7, the source pixel 30, while \<open>floor (7 * 62 / 14) = 31\<close>. And for a
  target of \<open>2\<^sup>2\<^sup>4 + 1\<close> pixels from a source of 3, the index computed for \<open>x = 2\<^sup>2\<^sup>4\<close> is 3,
  the source width itself.
\<close>

theorem source_index_counterexample:
  "pixel_byte (result_image (Image_resize_linear env_ok gradient_62 14 1)) 7 0 0 = Some 30
   \<and> pixel_byte (Some gradient_62) ((7 * 62) div 14) 0 0 = Some 31
   \<and> int_times_f32 7 (f32_div (f32_of_int (img_width gradient_62)) (f32_of_int 14)) = Some 30
   \<and> (7 * 62) div 14 = (31::int)
   \<and> int_times_f32 16777216 (f32_div (f32_of_int 3) (f32_of_int 16777217)) = Some 3"
  by code_simp

subsection \<open>Resizing to the same dimensions\<close>

text \<open>
  Claim C10, as the code has it. For a well-formed source of at most \<open>2\<^sup>2\<^sup>4\<close> pixels in each
  direction whose pixel block has fewer than \<open>2\<^sup>3\<^sup>1\<close> bytes, with both allocations successful,
  resizing to the source's own dimensions returns an image whose pixel bytes are those of
  the source.
\<close>

theorem resize_same_size_identity:
  assumes "wf_image src" "img_width src \<le> 2 ^ 24" "img_height src \<le> 2 ^ 24"
    and "img_height src * img_stride src < 2 ^ 31"
    and "env_struct env" "env_data env = Some content"
  shows "\<exists>resized. Image_resize_linear env src (img_width src) (img_height src) = Some (Ptr resized)
           \<and> img_data resized = img_data src"
proof -
  let ?w = "img_width src" and ?h = "img_height src" and ?b = "img_bpp src"
  let ?xr = "f32_div (f32_of_int ?w) (f32_of_int ?w)"
  let ?yr = "f32_div (f32_of_int ?h) (f32_of_int ?h)"
  from assms(1) have wf: "0 < ?w" "0 < ?h" "0 < ?b"
    "img_stride src = ?w * ?b"
    "int (length (img_data src)) = ?h * img_stride src"
    by (simp_all add: wf_image_def)
  have sl: "int (length (img_data src)) < 2 ^ 31" using assms(4) wf(5) by simp
  have fit: "?h * (?w * ?b) < 2 ^ 31" using assms(4) wf(4) by simp
  have "1 * (?w * ?b) \<le> ?h * (?w * ?b)" using wf(1,2,3) by (intro mult_right_mono) auto
  then have row: "?w * ?b < 2 ^ 31" using fit by linarith
  have xr: "?xr = Fin 1" using wf(1) assms(2) by (rule ratio_one)
  have yr: "?yr = Fin 1" using wf(2) assms(3) by (rule ratio_one)
  have X: "\<forall>x. 0 \<le> x \<and> x < ?w \<longrightarrow> (\<exists>sx. int_times_f32 x ?xr = Some sx \<and> 0 \<le> sx \<and> sx < ?w)"
    unfolding xr using assms(2) by (auto simp: int_times_one)
  have Y: "\<forall>y. 0 \<le> y \<and> y < ?h \<longrightarrow> (\<exists>sy. int_times_f32 y ?yr = Some sy \<and> 0 \<le> sy \<and> sy < ?h)"
    unfolding yr using assms(3) by (auto simp: int_times_one)
  have nn: "0 \<le> ?w" "0 \<le> ?h" using wf(1,2) by simp_all
  from resize_total [OF wf(3,4) nn(1) wf(5) sl assms(5,6) nn row fit X Y] obtain block where
    r: "Image_resize_linear env src ?w ?h
          = Some (Ptr \<lparr>img_width = ?w, img_height = ?h, img_bpp = ?b,
                       img_stride = ?w * ?b, img_data = block\<rparr>)"
    and len: "int (length block) = ?h * (?w * ?b)"
    and px: "\<And>x y k sx sy. 0 \<le> x \<Longrightarrow> x < ?w \<Longrightarrow> 0 \<le> y \<Longrightarrow> y < ?h
                    \<Longrightarrow> 0 \<le> k \<Longrightarrow> k < ?b
                    \<Longrightarrow> int_times_f32 x ?xr = Some sx \<Longrightarrow> int_times_f32 y ?yr = Some sy
                  \<Longrightarrow> load block (y * (?w * ?b) + x * ?b + k)
                        = load (img_data src) (sy * img_stride src + sx * ?b + k)"
    by blast
  have leq: "length block = length (img_data src)" using len wf(4,5) by simp
  have "block = img_data src"
  proof (rule nth_equalityI [OF leq])
    fix i assume i: "i < length block"
    then have "0 \<le> int i" "int i < ?h * (?w * ?b)" using len by simp_all
    from decompose_index [OF this wf(1,3)] obtain y x k where
      d: "0 \<le> y" "y < ?h" "0 \<le> x" "x < ?w" "0 \<le> k" "k < ?b"
      "int i = y * (?w * ?b) + x * ?b + k" by blast
    have sx: "int_times_f32 x ?xr = Some x" unfolding xr using d(3,4) assms(2) by (intro int_times_one) auto
    have sy: "int_times_f32 y ?yr = Some y" unfolding yr using d(1,2) assms(3) by (intro int_times_one) auto
    have "load block (int i) = load (img_data src) (int i)"
      using px [OF d(3,4,1,2,5,6) sx sy] by (simp add: d(7) wf(4))
    then show "block ! i = img_data src ! i" using i leq by (simp add: load_def)
  qed
  with r show ?thesis by simp
qed

theorem resize_same_size_identity_witness:
  "wf_image img_2x2 \<and> img_height img_2x2 * img_stride img_2x2 < 2 ^ 31
   \<and> (\<exists>resized. Image_resize_linear env_ok img_2x2 (img_width img_2x2) (img_height img_2x2)
                   = Some (Ptr resized)
                 \<and> img_data resized = img_data img_2x2)"
proof -
  have w: "wf_image img_2x2" by (simp add: wf_image_def img_2x2_def)
  have d: "img_width img_2x2 \<le> 2 ^ 24" "img_height img_2x2 \<le> 2 ^ 24"
    "img_height img_2x2 * img_stride img_2x2 < 2 ^ 31"
    "env_struct env_ok" "env_data env_ok = Some (\<lambda>i. 0)"
    by (simp_all add: img_2x2_def env_ok_def)
  from resize_same_size_identity [OF w d] w d(3) show ?thesis by blast
qed

text \<open>The wide image: its size, two of its bytes, and the source indices of its pixels.\<close>

lemma wide_index:
  assumes "0 \<le> x" "x < 16777218"
  shows "\<exists>sx. int_times_f32 x (Fin 1) = Some sx \<and> 0 \<le> sx \<and> sx < 16777218"
proof (cases "x \<le> 2 ^ 24")
  case True
  with assms(1) have "int_times_f32 x (Fin 1) = Some x" by (intro int_times_one)
  with assms show ?thesis by simp
next
  case False
  with assms(2) have x: "x = 16777217" by simp
  have "int_times_f32 16777217 (Fin 1) = Some 16777216" by code_simp
  then show ?thesis by (simp add: x)
qed

lemma wide_data_length: "length wide_data = 50331654"
proof -
  have "length wide_data = 50331651 + length [1, 1, 1 :: byte]"
    unfolding wide_data_def by (simp only: length_append length_replicate)
  then show ?thesis by simp
qed

lemma wide_data_black: "wide_data ! 50331648 = 0"
proof -
  have "(50331648::nat) < length (replicate 50331651 (0::byte))"
    by (simp only: length_replicate)
  then have "wide_data ! 50331648 = replicate 50331651 (0::byte) ! 50331648"
    unfolding wide_data_def by (rule nth_append_left)
  also have "\<dots> = 0" by (rule nth_replicate) simp
  finally show ?thesis .
qed

lemma wide_data_last: "wide_data ! 50331651 = 1"
proof -
  have "length (replicate 50331651 (0::byte)) \<le> (50331651::nat)"
    by (simp only: length_replicate)
  then have "wide_data ! 50331651 = [1, 1, 1 :: byte] ! (50331651 - length (replicate 50331651 (0::byte)))"
    unfolding wide_data_def by (rule nth_append_right)
  also have "\<dots> = [1, 1, 1 :: byte] ! 0" by (simp only: length_replicate) simp
  finally show ?thesis by simp
qed

text \<open>
  The claim as stated fails beyond \<open>2\<^sup>2\<^sup>4\<close> pixels: the conversion of line 321 rounds
  \<open>x = 2\<^sup>2\<^sup>4 + 1\<close> to \<open>2\<^sup>2\<^sup>4\<close>, so the last pixel of the wide image, a block of 50331654
  bytes, is copied from its neighbour and the result differs from the source.
\<close>

theorem wide_identity_counterexample:
  "map_option img_data
     (result_image (Image_resize_linear env_ok wide_image (img_width wide_image) (img_height wide_image)))
   \<noteq> Some (img_data wide_image)"
proof -
  have f: "img_width wide_image = 16777218" "img_height wide_image = 1" "img_bpp wide_image = 3"
    "img_stride wide_image = 50331654" "img_data wide_image = wide_data"
    by (simp_all add: wide_image_def)
  let ?xr = "f32_div (f32_of_int 16777218) (f32_of_int 16777218)"
  let ?yr = "f32_div (f32_of_int 1) (f32_of_int 1)"
  have xr: "?xr = Fin 1" by code_simp
  have yr: "?yr = Fin 1" by code_simp
  have s: "0 < img_bpp wide_image" "img_stride wide_image = img_width wide_image * img_bpp wide_image"
    "0 \<le> img_width wide_image"
    "int (length (img_data wide_image)) = img_height wide_image * img_stride wide_image"
    "int (length (img_data wide_image)) < 2 ^ 31"
    "env_struct env_ok" "env_data env_ok = Some (\<lambda>i. 0)"
    "0 \<le> img_width wide_image" "0 \<le> img_height wide_image"
    "img_width wide_image * img_bpp wide_image < 2 ^ 31"
    "img_height wide_image * (img_width wide_image * img_bpp wide_image) < 2 ^ 31"
    by (simp_all add: f wide_data_length env_ok_def)
  have X: "\<forall>x. 0 \<le> x \<and> x < img_width wide_image \<longrightarrow>
             (\<exists>sx. int_times_f32 x (f32_div (f32_of_int (img_width wide_image)) (f32_of_int (img_width wide_image))) = Some sx
                \<and> 0 \<le> sx \<and> sx < img_width wide_image)"
    unfolding f xr using wide_index by simp
  have Y: "\<forall>y. 0 \<le> y \<and> y < img_height wide_image \<longrightarrow>
             (\<exists>sy. int_times_f32 y (f32_div (f32_of_int (img_height wide_image)) (f32_of_int (img_height wide_image))) = Some sy
                \<and> 0 \<le> sy \<and> sy < img_height wide_image)"
    unfolding f yr by (auto simp: int_times_one)
  from resize_total [OF s X Y] obtain block where
    r: "Image_resize_linear env_ok wide_image (img_width wide_image) (img_height wide_image)
          = Some (Ptr \<lparr>img_width = img_width wide_image, img_height = img_height wide_image,
                       img_bpp = img_bpp wide_image,
                       img_stride = img_width wide_image * img_bpp wide_image, img_data = block\<rparr>)"
    and px: "\<And>x y k sx sy. 0 \<le> x \<Longrightarrow> x < img_width wide_image \<Longrightarrow> 0 \<le> y
                    \<Longrightarrow> y < img_height wide_image
                    \<Longrightarrow> 0 \<le> k \<Longrightarrow> k < img_bpp wide_image
                    \<Longrightarrow> int_times_f32 x (f32_div (f32_of_int (img_width wide_image)) (f32_of_int (img_width wide_image))) = Some sx
                    \<Longrightarrow> int_times_f32 y (f32_div (f32_of_int (img_height wide_image)) (f32_of_int (img_height wide_image))) = Some sy
                  \<Longrightarrow> load block (y * (img_width wide_image * img_bpp wide_image)
                                    + x * img_bpp wide_image + k)
                        = load (img_data wide_image)
                            (sy * img_stride wide_image + sx * img_bpp wide_image + k)"
    by blast
  have sx: "int_times_f32 16777217 (f32_div (f32_of_int (img_width wide_image)) (f32_of_int (img_width wide_image))) = Some 16777216"
    unfolding f xr by code_simp
  have sy: "int_times_f32 0 (f32_div (f32_of_int (img_height wide_image)) (f32_of_int (img_height wide_image))) = Some 0"
    unfolding f yr by code_simp
  have "load block (0 * (img_width wide_image * img_bpp wide_image) + 16777217 * img_bpp wide_image + 0)
          = load (img_data wide_image) (0 * img_stride wide_image + 16777216 * img_bpp wide_image + 0)"
    by (rule px [OF _ _ _ _ _ _ sx sy]) (simp_all add: f)
  then have b: "load block 50331651 = load wide_data 50331648"
    by (simp add: f)
  have "load wide_data 50331648 = Some 0"
    using wide_data_black by (simp add: load_def wide_data_length)
  moreover have "load wide_data 50331651 = Some 1"
    using wide_data_last by (simp add: load_def wide_data_length)
  ultimately have "block \<noteq> wide_data" using b by auto
  then show ?thesis by (simp add: r [unfolded f] result_image_def f)
qed

end
